theory Spec2Isabelle
  imports Complex_Main "HOL-Library.Multiset"
begin

section \<open>Python values, errors and the shape dataclasses\<close>

text \<open>
  The exceptions that \<^verbatim>\<open>svg.py\<close> can raise. \<open>InvalidHandle\<close> has no Python
  counterpart: it is what the model answers when a node handle does not name a node of
  the heap, which a Python object reference can never do.
\<close>

datatype error = ValueError | TypeError | AttributeError | KeyError | InvalidHandle

text \<open>
  A field of a shape dataclass holds a string or a number; \<open>f.type\<close> of a dataclass
  field is \<^verbatim>\<open>str\<close> or \<^verbatim>\<open>float\<close>.
\<close>

datatype pyval = PyStr string | PyFloat real

datatype ftype = TStr | TFloat

text \<open>Python truthiness, as used by \<^verbatim>\<open>not field_value\<close>.\<close>

fun truthy :: "pyval \<Rightarrow> bool" where
  "truthy (PyStr s) = (s \<noteq> [])"
| "truthy (PyFloat r) = (r \<noteq> 0)"

record field =
  fname :: string
  ftype :: ftype
  fdefault :: "pyval option"

datatype shape_class =
  SVGCircle | SVGEllipse | SVGLine | SVGPath | SVGPolygon | SVGPolyline | SVGRect

text \<open>
  An instance of a shape dataclass: its class and \<^verbatim>\<open>dataclasses.asdict\<close> of it,
  the field values in declaration order.
\<close>

record shape =
  cls :: shape_class
  vals :: "(string \<times> pyval) list"

text \<open>
  What \<^verbatim>\<open>svg.py\<close> imports and this repository's sources do not show:
  \<^verbatim>\<open>svgns()\<close> of \<^verbatim>\<open>svg_meta\<close>, the dataclasses of \<^verbatim>\<open>svg_types\<close>
  (their fields, and \<^verbatim>\<open>as_path\<close>), and Python's \<^verbatim>\<open>float(str)\<close>
  (\<open>None\<close> where it raises ValueError). They are parameters of every function below.
\<close>

record env =
  svgns :: string
  fields_of :: "shape_class \<Rightarrow> field list"
  py_float :: "string \<Rightarrow> real option"
  as_path :: "shape \<Rightarrow> error + shape"

section \<open>The module tables\<close>

definition base_classes :: "(string \<times> shape_class) list" where
  "base_classes =
     [(''circle'', SVGCircle), (''ellipse'', SVGEllipse), (''line'', SVGLine),
      (''path'', SVGPath), (''polygon'', SVGPolygon), (''polyline'', SVGPolyline),
      (''rect'', SVGRect)]"

text \<open>The f-string \<^verbatim>\<open>f'{{{svgns()}}}{k}'\<close>.\<close>

definition qname :: "string \<Rightarrow> string \<Rightarrow> string" where
  "qname ns k = ''{'' @ ns @ ''}'' @ k"

definition CLASS_ELEMENTS :: "string \<Rightarrow> (shape_class \<times> string) list" where
  "CLASS_ELEMENTS ns = map (\<lambda>(k, v). (v, qname ns k)) base_classes"

text \<open>
  \<^verbatim>\<open>_ELEMENT_CLASSES\<close> after its \<^verbatim>\<open>update\<close>: the namespaced keys are put first,
  so that a lookup finds an updated entry before the one it would have overwritten.
\<close>

definition ELEMENT_CLASSES :: "string \<Rightarrow> (string \<times> shape_class) list" where
  "ELEMENT_CLASSES ns = map (\<lambda>(k, v). (qname ns k, v)) base_classes @ base_classes"

definition OMIT_FIELD_IF_BLANK :: "string list" where
  "OMIT_FIELD_IF_BLANK = [''clip_path'']"

definition ATTR_RENAMES :: "(string \<times> string) list" where
  "ATTR_RENAMES = [(''clip-path'', ''clip_path'')]"

definition FIELD_RENAMES :: "(string \<times> string) list" where
  "FIELD_RENAMES = map (\<lambda>(k, v). (v, k)) ATTR_RENAMES"

text \<open>\<^verbatim>\<open>_FIELD_RENAMES.get(name, name)\<close>\<close>

definition field_attr :: "string \<Rightarrow> string" where
  "field_attr name = (case map_of FIELD_RENAMES name of Some a \<Rightarrow> a | None \<Rightarrow> name)"

section \<open>The element tree\<close>

text \<open>
  An lxml element is a node with an identity (its handle), a tag, its attributes in
  order, and its children. Character data and comments are left out: no function of
  \<^verbatim>\<open>svg.py\<close> reads or writes them. The heap is the forest of all parentless
  elements with their subtrees, and the next unused handle.
\<close>

type_synonym handle = nat

datatype el = El (el_id: handle) (el_tag: string) (el_attrib: "(string \<times> string) list")
  (el_kids: "el list")

record heap =
  forest :: "el list"
  next_id :: handle

text \<open>A serialized document: the tree without the handles.\<close>

datatype xml = Xml string "(string \<times> string) list" "xml list"

fun snapshot :: "el \<Rightarrow> xml" where
  "snapshot (El i t a ks) = Xml t a (map snapshot ks)"

text \<open>\<^verbatim>\<open>el.iter('*')\<close>: the element and its descendants in document order.\<close>

fun nodes :: "el \<Rightarrow> el list" where
  "nodes (El i t a ks) = El i t a ks # concat (map nodes ks)"

definition all_nodes :: "el list \<Rightarrow> el list" where
  "all_nodes F = concat (map nodes F)"

definition ids :: "el list \<Rightarrow> handle list" where
  "ids F = map el_id (all_nodes F)"

definition find_el :: "heap \<Rightarrow> handle \<Rightarrow> el option" where
  "find_el h i = find (\<lambda>e. el_id e = i) (all_nodes (forest h))"

definition getparent :: "heap \<Rightarrow> handle \<Rightarrow> handle option" where
  "getparent h i =
     map_option el_id (find (\<lambda>p. i \<in> set (map el_id (el_kids p))) (all_nodes (forest h)))"

text \<open>
  \<^verbatim>\<open>parent.replace(old, new)\<close>: in the node \<open>p\<close> the child \<open>old\<close> gives its place
  to \<open>new\<close>; \<open>old\<close> keeps its subtree and becomes parentless.
\<close>

fun replace_in :: "handle \<Rightarrow> handle \<Rightarrow> el \<Rightarrow> el \<Rightarrow> el" where
  "replace_in p old new (El i t a ks) =
     El i t a (map (\<lambda>k. if i = p \<and> el_id k = old then new else replace_in p old new k) ks)"

fun detach_in :: "handle \<Rightarrow> handle \<Rightarrow> el \<Rightarrow> el list" where
  "detach_in p old (El i t a ks) =
     concat (map (\<lambda>k. if i = p \<and> el_id k = old then [k] else detach_in p old k) ks)"

definition el_replace :: "heap \<Rightarrow> handle \<Rightarrow> handle \<Rightarrow> el \<Rightarrow> error + heap" where
  "el_replace h p old new =
     (if getparent h old = Some p
      then Inr (h\<lparr>forest := map (replace_in p old new) (forest h)
                             @ concat (map (detach_in p old) (forest h))\<rparr>)
      else Inl ValueError)"

text \<open>\<^verbatim>\<open>etree.Element(tag)\<close>: a new parentless element, held by the caller.\<close>

definition etree_Element :: "heap \<Rightarrow> string \<Rightarrow> el \<times> heap" where
  "etree_Element h t = (El (next_id h) t [] [], h\<lparr>next_id := Suc (next_id h)\<rparr>)"

text \<open>\<^verbatim>\<open>el.attrib[k] = v\<close>: an attribute keeps its place when it is set again.\<close>

fun attrib_set :: "string \<Rightarrow> string \<Rightarrow> (string \<times> string) list \<Rightarrow> (string \<times> string) list" where
  "attrib_set k v [] = [(k, v)]"
| "attrib_set k v (p # ps) = (if fst p = k then (k, v) # ps else p # attrib_set k v ps)"

fun map_ids :: "(handle \<Rightarrow> handle) \<Rightarrow> el \<Rightarrow> el" where
  "map_ids f (El i t a ks) = El (f i) t a (map (map_ids f) ks)"

text \<open>
  \<^verbatim>\<open>copy.deepcopy(el)\<close>: a parentless copy of the subtree, every node of it new. The
  new handles are the old ones moved above every handle in use.
\<close>

definition deepcopy :: "heap \<Rightarrow> handle \<Rightarrow> (handle \<times> heap) option" where
  "deepcopy h r =
     (case find_el h r of
        None \<Rightarrow> None
      | Some t \<Rightarrow>
          Some (r + next_id h,
                \<lparr>forest = forest h @ [map_ids (\<lambda>i. i + next_id h) t],
                 next_id = next_id h + next_id h\<rparr>))"

text \<open>\<^verbatim>\<open>etree.tostring(el)\<close>\<close>

definition etree_tostring :: "heap \<Rightarrow> handle \<Rightarrow> error + xml" where
  "etree_tostring h r =
     (case find_el h r of None \<Rightarrow> Inl InvalidHandle | Some t \<Rightarrow> Inr (snapshot t))"

section \<open>Decoding and encoding an element\<close>

text \<open>\<open>f.type(s)\<close>\<close>

definition convert :: "env \<Rightarrow> ftype \<Rightarrow> string \<Rightarrow> error + pyval" where
  "convert E ty s =
     (case ty of
        TStr \<Rightarrow> Inr (PyStr s)
      | TFloat \<Rightarrow> (case py_float E s of None \<Rightarrow> Inl ValueError | Some r \<Rightarrow> Inr (PyFloat r)))"

text \<open>The dict comprehension of \<^verbatim>\<open>_el_to_data\<close>, one field after the other.\<close>

fun build_args :: "env \<Rightarrow> field list \<Rightarrow> (string \<times> string) list
    \<Rightarrow> error + (string \<times> pyval) list" where
  "build_args E [] attrib = Inr []"
| "build_args E (f # fs) attrib =
     (case map_of attrib (field_attr (fname f)) of
        None \<Rightarrow> build_args E fs attrib
      | Some s \<Rightarrow>
          (case convert E (ftype f) s of
             Inl e \<Rightarrow> Inl e
           | Inr v \<Rightarrow>
               (case build_args E fs attrib of
                  Inl e \<Rightarrow> Inl e
                | Inr args \<Rightarrow> Inr ((fname f, v) # args))))"

text \<open>
  \<^verbatim>\<open>data_type(**args)\<close>: a field takes its argument, or else its default; a field
  with neither is a TypeError.
\<close>

fun construct :: "field list \<Rightarrow> (string \<times> pyval) list \<Rightarrow> error + (string \<times> pyval) list" where
  "construct [] args = Inr []"
| "construct (f # fs) args =
     (case (case map_of args (fname f) of Some v \<Rightarrow> Some v | None \<Rightarrow> fdefault f) of
        None \<Rightarrow> Inl TypeError
      | Some v \<Rightarrow>
          (case construct fs args of
             Inl e \<Rightarrow> Inl e
           | Inr vs \<Rightarrow> Inr ((fname f, v) # vs)))"

definition el_to_data :: "env \<Rightarrow> el \<Rightarrow> error + shape" where
  "el_to_data E el =
     (case map_of (ELEMENT_CLASSES (svgns E)) (el_tag el) of
        None \<Rightarrow> Inl ValueError
      | Some data_type \<Rightarrow>
          (case build_args E (fields_of E data_type) (el_attrib el) of
             Inl e \<Rightarrow> Inl e
           | Inr args \<Rightarrow>
               (case construct (fields_of E data_type) args of
                  Inl e \<Rightarrow> Inl e
                | Inr vs \<Rightarrow> Inr \<lparr>cls = data_type, vals = vs\<rparr>)))"

text \<open>
  What lxml takes as an attribute value: a string of XML characters. A number raises
  TypeError, a string with a NUL or another control character (tab, line feed and carriage
  return apart) raises ValueError.
\<close>

definition xml_char :: "char \<Rightarrow> bool" where
  "xml_char c = (32 \<le> (of_char c :: nat) \<or> (of_char c :: nat) \<in> {9, 10, 13})"

definition xml_compatible :: "string \<Rightarrow> bool" where
  "xml_compatible s = list_all xml_char s"

text \<open>The loop of \<^verbatim>\<open>_data_to_el\<close> over the fields.\<close>

fun write_fields :: "(string \<times> pyval) list \<Rightarrow> (string \<times> string) list
    \<Rightarrow> error + (string \<times> string) list" where
  "write_fields [] attrib = Inr attrib"
| "write_fields ((field_name, field_value) # rest) attrib =
     (if field_name \<in> set OMIT_FIELD_IF_BLANK \<and> \<not> truthy field_value
      then write_fields rest attrib
      else (case field_value of
              PyStr s \<Rightarrow>
                (if xml_compatible s
                 then write_fields rest (attrib_set (field_attr field_name) s attrib)
                 else Inl ValueError)
            | PyFloat r \<Rightarrow> Inl TypeError))"

definition data_to_el :: "env \<Rightarrow> heap \<Rightarrow> shape \<Rightarrow> (error + el) \<times> heap" where
  "data_to_el E h data_obj =
     (case map_of (CLASS_ELEMENTS (svgns E)) (cls data_obj) of
        None \<Rightarrow> (Inl KeyError, h)
      | Some t \<Rightarrow>
          (let (el, h') = etree_Element h t
           in (case write_fields (vals data_obj) (el_attrib el) of
                 Inl e \<Rightarrow> (Inl e, h')
               | Inr attrib \<Rightarrow> (Inr (El (el_id el) (el_tag el) attrib (el_kids el)), h'))))"

section \<open>The document normalizer\<close>

text \<open>
  An \<^verbatim>\<open>SVG\<close> object: the handle of its root element and its cache of
  (element, shape) pairs, \<open>None\<close> until \<^verbatim>\<open>_elements\<close> has filled it.
\<close>

record svg =
  svg_root :: handle
  elements :: "(handle \<times> shape) list option"

definition SVG :: "handle \<Rightarrow> svg" where
  "SVG r = \<lparr>svg_root = r, elements = None\<rparr>"

text \<open>\<^verbatim>\<open>if self.elements:\<close> holds for a list that is not empty.\<close>

definition populated :: "svg \<Rightarrow> bool" where
  "populated self = (case elements self of None \<Rightarrow> False | Some c \<Rightarrow> c \<noteq> [])"

definition recognized :: "env \<Rightarrow> string \<Rightarrow> bool" where
  "recognized E t = (map_of (ELEMENT_CLASSES (svgns E)) t \<noteq> None)"

text \<open>The loop of \<^verbatim>\<open>_elements\<close> over the elements of the tree.\<close>

fun collect :: "env \<Rightarrow> el list \<Rightarrow> error + (handle \<times> shape) list" where
  "collect E [] = Inr []"
| "collect E (el # els) =
     (if \<not> recognized E (el_tag el) then collect E els
      else (case el_to_data E el of
              Inl e \<Rightarrow> Inl e
            | Inr d \<Rightarrow>
                (case collect E els of
                   Inl e \<Rightarrow> Inl e
                 | Inr c \<Rightarrow> Inr ((el_id el, d) # c))))"

definition walk :: "env \<Rightarrow> heap \<Rightarrow> svg \<Rightarrow> error + (handle \<times> shape) list \<times> svg" where
  "walk E h self =
     (case find_el h (svg_root self) of
        None \<Rightarrow> Inl InvalidHandle
      | Some t \<Rightarrow>
          (case collect E (nodes t) of
             Inl e \<Rightarrow> Inl e
           | Inr c \<Rightarrow> Inr (c, self\<lparr>elements := Some c\<rparr>)))"

definition SVG_elements :: "env \<Rightarrow> heap \<Rightarrow> svg \<Rightarrow> error + (handle \<times> shape) list \<times> svg" where
  "SVG_elements E h self =
     (if populated self then Inr (the (elements self), self) else walk E h self)"

definition shapes :: "env \<Rightarrow> heap \<Rightarrow> svg \<Rightarrow> error + shape list \<times> svg" where
  "shapes E h self =
     (case SVG_elements E h self of
        Inl e \<Rightarrow> Inl e
      | Inr (c, self') \<Rightarrow> Inr (map snd c, self'))"

text \<open>
  The loop of \<^verbatim>\<open>shapes_to_paths\<close>: the pairs are rewritten one by one, so a raise
  of \<^verbatim>\<open>as_path\<close> leaves the pairs before it converted.
\<close>

fun convert_all :: "(shape \<Rightarrow> error + shape) \<Rightarrow> (handle \<times> shape) list
    \<Rightarrow> error option \<times> (handle \<times> shape) list" where
  "convert_all ap [] = (None, [])"
| "convert_all ap ((el, s) # rest) =
     (case ap s of
        Inl e \<Rightarrow> (Some e, (el, s) # rest)
      | Inr p \<Rightarrow> (case convert_all ap rest of (r, rest') \<Rightarrow> (r, (el, p) # rest')))"

text \<open>The branch \<^verbatim>\<open>inplace=True\<close>: the result, and \<^verbatim>\<open>self\<close> after the call.\<close>

definition shapes_to_paths_inplace :: "env \<Rightarrow> heap \<Rightarrow> svg \<Rightarrow> (error + svg) \<times> svg" where
  "shapes_to_paths_inplace E h self =
     (case SVG_elements E h self of
        Inl e \<Rightarrow> (Inl e, self)
      | Inr (c, self1) \<Rightarrow>
          (case convert_all (as_path E) c of
             (Some e, c') \<Rightarrow> (Inl e, self1\<lparr>elements := Some c'\<rparr>)
           | (None, c') \<Rightarrow> (Inr (self1\<lparr>elements := Some c'\<rparr>), self1\<lparr>elements := Some c'\<rparr>)))"

text \<open>
  \<^verbatim>\<open>shapes_to_paths(self, inplace)\<close>: the result, \<^verbatim>\<open>self\<close> after the call and
  the heap after the call.
\<close>

definition shapes_to_paths :: "env \<Rightarrow> heap \<Rightarrow> svg \<Rightarrow> bool \<Rightarrow> (error + svg) \<times> svg \<times> heap" where
  "shapes_to_paths E h self inplace =
     (if \<not> inplace then
        (case deepcopy h (svg_root self) of
           None \<Rightarrow> (Inl InvalidHandle, self, h)
         | Some (r, h') \<Rightarrow>
             (case shapes_to_paths_inplace E h' (SVG r) of
                (Inl e, svg) \<Rightarrow> (Inl e, self, h')
              | (Inr _, svg) \<Rightarrow> (Inr svg, self, h')))
      else (case shapes_to_paths_inplace E h self of (res, self') \<Rightarrow> (res, self', h)))"

text \<open>\<^verbatim>\<open>apply_clip_paths(self, inplace)\<close>: after the copy, only comments.\<close>

definition apply_clip_paths :: "env \<Rightarrow> heap \<Rightarrow> svg \<Rightarrow> bool \<Rightarrow> (error + svg) \<times> svg \<times> heap" where
  "apply_clip_paths E h self inplace =
     (if \<not> inplace then
        (case deepcopy h (svg_root self) of
           None \<Rightarrow> (Inl InvalidHandle, self, h)
         | Some (r, h') \<Rightarrow> (Inr (SVG r), self, h'))
      else (Inr self, self, h))"

text \<open>The first loop of \<^verbatim>\<open>tostring\<close>: one new element for each cached shape.\<close>

fun make_swaps :: "env \<Rightarrow> heap \<Rightarrow> (handle \<times> shape) list
    \<Rightarrow> (error + (handle \<times> el) list) \<times> heap" where
  "make_swaps E h [] = (Inr [], h)"
| "make_swaps E h ((old_el, s) # rest) =
     (case data_to_el E h s of
        (Inl e, h') \<Rightarrow> (Inl e, h')
      | (Inr new_el, h') \<Rightarrow>
          (case make_swaps E h' rest of
             (Inl e, h'') \<Rightarrow> (Inl e, h'')
           | (Inr swaps, h'') \<Rightarrow> (Inr ((old_el, new_el) # swaps), h'')))"

text \<open>
  The second loop of \<^verbatim>\<open>tostring\<close>: \<^verbatim>\<open>old_el.getparent()\<close> is None for a
  parentless element, and \<^verbatim>\<open>None.replace\<close> is an AttributeError.
\<close>

fun apply_swaps :: "heap \<Rightarrow> (handle \<times> el) list \<Rightarrow> error option \<times> heap" where
  "apply_swaps h [] = (None, h)"
| "apply_swaps h ((old_el, new_el) # swaps) =
     (case getparent h old_el of
        None \<Rightarrow> (Some AttributeError, h)
      | Some parent \<Rightarrow>
          (case el_replace h parent old_el new_el of
             Inl e \<Rightarrow> (Some e, h)
           | Inr h' \<Rightarrow> apply_swaps h' swaps))"

definition tostring :: "env \<Rightarrow> heap \<Rightarrow> svg \<Rightarrow> (error + xml) \<times> heap" where
  "tostring E h self =
     (if populated self then
        (case make_swaps E h (the (elements self)) of
           (Inl e, h') \<Rightarrow> (Inl e, h')
         | (Inr swaps, h') \<Rightarrow>
             (case apply_swaps h' swaps of
                (Some e, h'') \<Rightarrow> (Inl e, h'')
              | (None, h'') \<Rightarrow> (etree_tostring h'' (svg_root self), h'')))
      else (etree_tostring h (svg_root self), h))"

section \<open>Notions used in the proofs\<close>

definition kid_ids :: "el list \<Rightarrow> handle list" where
  "kid_ids F = concat (map (\<lambda>x. map el_id (el_kids x)) (all_nodes F))"

definition wf_heap :: "heap \<Rightarrow> bool" where
  "wf_heap h = (distinct (ids (forest h)) \<and> list_all (\<lambda>i. i < next_id h) (ids (forest h)))"

definition repl_list :: "bool \<Rightarrow> handle \<Rightarrow> handle \<Rightarrow> el \<Rightarrow> el list \<Rightarrow> el list" where
  "repl_list b p old new ks =
     map (\<lambda>k. if b \<and> el_id k = old then new else replace_in p old new k) ks"

definition det_list :: "bool \<Rightarrow> handle \<Rightarrow> handle \<Rightarrow> el list \<Rightarrow> el list" where
  "det_list b p old ks =
     concat (map (\<lambda>k. if b \<and> el_id k = old then [k] else detach_in p old k) ks)"

fun render :: "(handle \<Rightarrow> xml option) \<Rightarrow> el \<Rightarrow> xml" where
  "render m (El i t a ks) =
     Xml t a (map (\<lambda>k. case m (el_id k) of Some x \<Rightarrow> x | None \<Rightarrow> render m k) ks)"

definition news_ok :: "el list \<Rightarrow> (handle \<times> el) list \<Rightarrow> bool" where
  "news_ok F sw = ((\<forall>(old, n) \<in> set sw. el_kids n = [])
                   \<and> distinct (map (el_id \<circ> snd) sw)
                   \<and> set (map (el_id \<circ> snd) sw) \<inter> set (ids F) = {})"

definition ident_chars :: string where
  "ident_chars = ''abcdefghijklmnopqrstuvwxyzABCDEFGHIJKLMNOPQRSTUVWXYZ0123456789_''"

definition py_identifier :: "string \<Rightarrow> bool" where
  "py_identifier s = (s \<noteq> [] \<and> list_all (\<lambda>c. c \<in> set ident_chars) s
                       \<and> hd s \<notin> set ''0123456789'')"

definition wf_names :: "string list \<Rightarrow> bool" where
  "wf_names ns = (distinct ns \<and> list_all py_identifier ns)"

fun tag_name :: "shape_class \<Rightarrow> string" where
  "tag_name SVGCircle = ''circle''"
| "tag_name SVGEllipse = ''ellipse''"
| "tag_name SVGLine = ''line''"
| "tag_name SVGPath = ''path''"
| "tag_name SVGPolygon = ''polygon''"
| "tag_name SVGPolyline = ''polyline''"
| "tag_name SVGRect = ''rect''"

definition omitted :: "string \<Rightarrow> pyval \<Rightarrow> bool" where
  "omitted n v = (n = ''clip_path'' \<and> \<not> truthy v)"

fun written :: "(string \<times> pyval) list \<Rightarrow> (string \<times> string) list" where
  "written [] = []"
| "written ((n, v) # vs) =
     (if omitted n v then written vs
      else (case v of PyStr s \<Rightarrow> (field_attr n, s) # written vs | PyFloat r \<Rightarrow> written vs))"

definition writable :: "(string \<times> pyval) list \<Rightarrow> bool" where
  "writable vs =
     list_all (\<lambda>(n, v). omitted n v \<or> (case v of PyStr s \<Rightarrow> xml_compatible s | PyFloat r \<Rightarrow> False)) vs"

definition encoding :: "env \<Rightarrow> shape \<Rightarrow> error + xml" where
  "encoding E s =
     (case fst (data_to_el E \<lparr>forest = [], next_id = 0\<rparr> s) of
        Inl e \<Rightarrow> Inl e
      | Inr el \<Rightarrow> Inr (snapshot el))"

fun encode_all :: "env \<Rightarrow> (handle \<times> shape) list \<Rightarrow> error + (handle \<times> xml) list" where
  "encode_all E [] = Inr []"
| "encode_all E ((old, s) # c) =
     (case encoding E s of
        Inl e \<Rightarrow> Inl e
      | Inr x \<Rightarrow> (case encode_all E c of Inl e \<Rightarrow> Inl e | Inr xs \<Rightarrow> Inr ((old, x) # xs)))"

definition tostring_out :: "env \<Rightarrow> el \<Rightarrow> handle set \<Rightarrow> (handle \<times> shape) list option \<Rightarrow> error + xml" where
  "tostring_out E t kids cache =
     (case cache of
        None \<Rightarrow> Inr (snapshot t)
      | Some c \<Rightarrow>
          (if c = [] then Inr (snapshot t)
           else (case encode_all E c of
                   Inl e \<Rightarrow> Inl e
                 | Inr xs \<Rightarrow>
                     (if distinct (map fst c) \<and> set (map fst c) \<subseteq> kids
                      then Inr (render (map_of xs) t)
                      else Inl AttributeError))))"

section \<open>The shape dataclasses, from the specification\<close>

text \<open>
  Modelled from the spec: the fields of the shape dataclasses of \<^verbatim>\<open>svg_types\<close>,
  which is not among the sources (spec 3, Shape variants). Every shape carries
  \<^verbatim>\<open>clip_path\<close> and the presentation attributes opacity, fill and stroke, strings
  that may be blank; the geometry fields are numbers, except the point list of a polygon
  or polyline and the path data of a path.
\<close>

definition str_field :: "string \<Rightarrow> field" where
  "str_field n = \<lparr>fname = n, ftype = TStr, fdefault = Some (PyStr [])\<rparr>"

definition num_field :: "string \<Rightarrow> field" where
  "num_field n = \<lparr>fname = n, ftype = TFloat, fdefault = Some (PyFloat 0)\<rparr>"

definition spec_common :: "field list" where
  "spec_common = map str_field [''clip_path'', ''opacity'', ''fill'', ''stroke'']"

fun spec_geometry :: "shape_class \<Rightarrow> field list" where
  "spec_geometry SVGCircle = map num_field [''cx'', ''cy'', ''r'']"
| "spec_geometry SVGEllipse = map num_field [''cx'', ''cy'', ''rx'', ''ry'']"
| "spec_geometry SVGLine = map num_field [''x1'', ''y1'', ''x2'', ''y2'']"
| "spec_geometry SVGRect = map num_field [''x'', ''y'', ''width'', ''height'', ''rx'', ''ry'']"
| "spec_geometry SVGPolygon = [str_field ''points'']"
| "spec_geometry SVGPolyline = [str_field ''points'']"
| "spec_geometry SVGPath = [str_field ''d'']"

definition spec_fields :: "shape_class \<Rightarrow> field list" where
  "spec_fields c = spec_common @ spec_geometry c"

text \<open>
  Modelled from the spec: \<^verbatim>\<open>as_path\<close> of \<^verbatim>\<open>svg_types\<close>, which is not among the
  sources (spec 4.3). A Path returns itself unchanged; any other shape gives a new Path
  that carries forward all non-geometric attributes unchanged. The path data comes from
  the geometry by floating-point arithmetic and is left as the parameter \<open>path_data\<close>.
\<close>

definition spec_as_path :: "(shape \<Rightarrow> string) \<Rightarrow> shape \<Rightarrow> error + shape" where
  "spec_as_path path_data s =
     (if cls s = SVGPath then Inr s
      else Inr \<lparr>cls = SVGPath,
                vals = filter (\<lambda>(n, v). n \<in> set (map fname spec_common)) (vals s)
                       @ [(''d'', PyStr (path_data s))]\<rparr>)"

section \<open>Example documents\<close>

text \<open>
  An environment for the examples: the dataclasses of the specification, a reader for
  unsigned decimal numerals in the place of \<^verbatim>\<open>float\<close>, and the same path data for
  every shape (no example depends on it).
\<close>

definition example_float :: "string \<Rightarrow> real option" where
  "example_float s =
     (if s \<noteq> [] \<and> list_all (\<lambda>c. c \<in> set ''0123456789'') s
      then Some (of_nat (foldl (\<lambda>a c. 10 * a + (of_char c - 48)) 0 s))
      else None)"

definition example_env :: env where
  "example_env =
     \<lparr>svgns = ''http://www.w3.org/2000/svg'', fields_of = spec_fields,
      py_float = example_float, as_path = spec_as_path (\<lambda>s. ''M0,0'')\<rparr>"

text \<open>
  \<^verbatim>\<open><svg><path d="M1,1" clip-path="url(#c)" id="a"/><g><rect x="1" fill="red"/></g>
  <defs><clipPath id="c"><path d="M0,0"/><path d="M2,2"/></clipPath></defs></svg>\<close>
\<close>

definition example_tree :: el where
  "example_tree =
     El 0 ''svg'' []
       [El 1 ''path'' [(''d'', ''M1,1''), (''clip-path'', ''url(#c)''), (''id'', ''a'')] [],
        El 2 ''g'' [] [El 3 ''rect'' [(''x'', ''1''), (''fill'', ''red'')] []],
        El 4 ''defs'' []
          [El 5 ''clipPath'' [(''id'', ''c'')]
             [El 6 ''path'' [(''d'', ''M0,0'')] [], El 7 ''path'' [(''d'', ''M2,2'')] []]]]"

definition example_heap :: heap where
  "example_heap = \<lparr>forest = [example_tree], next_id = 8\<rparr>"

text \<open>\<^verbatim>\<open><svg><path d="M0,0" fill="red"/><g/></svg>\<close>\<close>

definition small_tree :: el where
  "small_tree = El 0 ''svg'' [] [El 1 ''path'' [(''d'', ''M0,0''), (''fill'', ''red'')] [], El 2 ''g'' [] []]"

definition small_heap :: heap where
  "small_heap = \<lparr>forest = [small_tree], next_id = 3\<rparr>"

text \<open>\<^verbatim>\<open><svg><g><title/></g></svg>\<close>, a document without shapes.\<close>

definition plain_heap :: heap where
  "plain_heap = \<lparr>forest = [El 0 ''svg'' [] [El 1 ''g'' [] [El 2 ''title'' [] []]]], next_id = 3\<rparr>"

text \<open>\<^verbatim>\<open><path d="M0,0" id="p"/>\<close>, a document whose root element is a shape.\<close>

definition path_heap :: heap where
  "path_heap = \<lparr>forest = [El 0 ''path'' [(''d'', ''M0,0''), (''id'', ''p'')] []], next_id = 1\<rparr>"

text \<open>
  The shape that \<^verbatim>\<open>_el_to_data\<close> reads from the path of \<open>small_tree\<close>, and the object
  over \<open>small_heap\<close> that holds it in its cache.
\<close>

definition small_shape :: shape where
  "small_shape = \<lparr>cls = SVGPath, vals = [(''clip_path'', PyStr []), (''opacity'', PyStr []),
                                          (''fill'', PyStr ''red''), (''stroke'', PyStr []),
                                          (''d'', PyStr ''M0,0'')]\<rparr>"

definition small_cached :: svg where
  "small_cached = \<lparr>svg_root = 0, elements = Some [(1, small_shape)]\<rparr>"

text \<open>The same for \<open>path_heap\<close>, where the cached element is the root.\<close>

definition path_shape :: shape where
  "path_shape = \<lparr>cls = SVGPath, vals = [(''clip_path'', PyStr []), (''opacity'', PyStr []),
                                         (''fill'', PyStr []), (''stroke'', PyStr []),
                                         (''d'', PyStr ''M0,0'')]\<rparr>"

definition path_cached :: svg where
  "path_cached = \<lparr>svg_root = 0, elements = Some [(0, path_shape)]\<rparr>"

text \<open>The shape read from \<^verbatim>\<open><circle r="2" clip-path="url(#c)"/>\<close>.\<close>

definition circle_shape :: shape where
  "circle_shape = \<lparr>cls = SVGCircle, vals = [(''clip_path'', PyStr ''url(#c)''), (''opacity'', PyStr []),
                                             (''fill'', PyStr []), (''stroke'', PyStr []),
                                             (''cx'', PyFloat 0), (''cy'', PyFloat 0),
                                             (''r'', PyFloat 2)]\<rparr>"




section \<open>Properties of the element tree and of the codec\<close>

lemma xml_compatible_simps [simp]:
  "xml_compatible []" "xml_compatible (c # s) = (xml_char c \<and> xml_compatible s)"
  by (simp_all add: xml_compatible_def)

lemma all_nodes_simps [simp]:
  "all_nodes [] = []"
  "all_nodes (t # F) = nodes t @ all_nodes F"
  "all_nodes (F @ G) = all_nodes F @ all_nodes G"
  by (simp_all add: all_nodes_def)

lemma ids_simps [simp]:
  "ids [] = []"
  "ids (F @ G) = ids F @ ids G"
  "ids (El i t a ks # F) = i # ids ks @ ids F"
  by (simp_all add: ids_def all_nodes_def)

lemma kid_ids_simps [simp]:
  "kid_ids [] = []"
  "kid_ids (F @ G) = kid_ids F @ kid_ids G"
  "kid_ids (El i t a ks # F) = map el_id ks @ kid_ids ks @ kid_ids F"
  by (simp_all add: kid_ids_def all_nodes_def)

lemma mset_ids_forest: "mset (ids F) = mset (map el_id F) + mset (kid_ids F)"
proof (induction F rule: measure_induct_rule [where f = "size_list size"])
  case (less F)
  show ?case
  proof (cases F)
    case Nil
    then show ?thesis by simp
  next
    case (Cons x G)
    obtain i t a ks where x: "x = El i t a ks" by (cases x)
    have 1: "mset (ids ks) = mset (map el_id ks) + mset (kid_ids ks)"
      using less [of ks] Cons x by simp
    have 2: "mset (ids G) = mset (map el_id G) + mset (kid_ids G)"
      using less [of G] Cons by simp
    show ?thesis using 1 2 Cons x by simp
  qed
qed

lemma repl_list_simps [simp]:
  "repl_list b p old new [] = []"
  "repl_list b p old new (k # ks) =
     (if b \<and> el_id k = old then new else replace_in p old new k) # repl_list b p old new ks"
  by (simp_all add: repl_list_def)

lemma det_list_simps [simp]:
  "det_list b p old [] = []"
  "det_list b p old (k # ks) =
     (if b \<and> el_id k = old then [k] else detach_in p old k) @ det_list b p old ks"
  by (simp_all add: det_list_def)

lemma replace_in_unfold:
  "replace_in p old new (El i t a ks) = El i t a (repl_list (i = p) p old new ks)"
  by (simp add: repl_list_def)

lemma detach_in_unfold:
  "detach_in p old (El i t a ks) = det_list (i = p) p old ks"
  by (simp add: det_list_def)

lemma map_replace_in: "map (replace_in p old new) F = repl_list False p old new F"
  by (simp add: repl_list_def)

lemma concat_detach_in: "concat (map (detach_in p old) F) = det_list False p old F"
  by (simp add: det_list_def)

lemma el_id_replace_in [simp]: "el_id (replace_in p old new t) = el_id t"
  by (cases t) simp

lemma replicate_mset_add: "replicate_mset (m + n) x = replicate_mset m x + replicate_mset n x"
  by (induction m) simp_all

lemma repl_det_mset:
  assumes n: "el_kids n = []"
  shows "mset (ids (repl_list b p old n F)) + mset (ids (det_list b p old F))
         = mset (ids F) + replicate_mset (length (det_list b p old F)) (el_id n)"
proof (induction F arbitrary: b rule: measure_induct_rule [where f = "size_list size"])
  case (less F)
  show ?case
  proof (cases F)
    case Nil
    then show ?thesis by simp
  next
    case (Cons x G)
    obtain i t a ks where x: "x = El i t a ks" by (cases x)
    obtain j u c where nn: "n = El j u c []" using n by (cases n) simp
    have G: "mset (ids (repl_list b p old n G)) + mset (ids (det_list b p old G))
         = mset (ids G) + replicate_mset (length (det_list b p old G)) (el_id n)"
      using less [of G] Cons by simp
    have K: "mset (ids (repl_list (i = p) p old n ks)) + mset (ids (det_list (i = p) p old ks))
         = mset (ids ks) + replicate_mset (length (det_list (i = p) p old ks)) (el_id n)"
      using less [of ks] Cons x by simp
    show ?thesis
    proof (cases "b \<and> i = old")
      case True
      then show ?thesis using G Cons x nn by simp
    next
      case False
      then have R: "repl_list b p old n F
                    = El i t a (repl_list (i = p) p old n ks) # repl_list b p old n G"
        and D: "det_list b p old F = det_list (i = p) p old ks @ det_list b p old G"
        using Cons x
        by (auto simp: replace_in_unfold detach_in_unfold simp del: replace_in.simps detach_in.simps)
      have "mset (ids (repl_list b p old n F)) + mset (ids (det_list b p old F))
            = {#i#} + (mset (ids (repl_list (i = p) p old n ks)) + mset (ids (det_list (i = p) p old ks)))
              + (mset (ids (repl_list b p old n G)) + mset (ids (det_list b p old G)))"
        unfolding R D by simp
      also have "\<dots> = mset (ids F) + replicate_mset (length (det_list b p old F)) (el_id n)"
        unfolding G K D using Cons x by (simp add: replicate_mset_add)
      finally show ?thesis .
    qed
  qed
qed

lemma det_list_roots: "d \<in> set (det_list b p old F) \<Longrightarrow> el_id d = old"
proof (induction F arbitrary: b rule: measure_induct_rule [where f = "size_list size"])
  case (less F)
  show ?case
  proof (cases F)
    case Nil
    then show ?thesis using less.prems by simp
  next
    case (Cons x G)
    obtain i t a ks where x: "x = El i t a ks" by (cases x)
    have G: "d \<in> set (det_list b p old G) \<Longrightarrow> el_id d = old"
      using less.IH [of G] Cons by simp
    have K: "d \<in> set (det_list (i = p) p old ks) \<Longrightarrow> el_id d = old"
      using less.IH [of ks] Cons x by simp
    show ?thesis using less.prems G K Cons x
      by (auto simp: detach_in_unfold simp del: detach_in.simps split: if_splits)
  qed
qed

lemma det_list_nonempty:
  "x \<in> set (all_nodes F) \<Longrightarrow> el_id x = p \<Longrightarrow> k \<in> set (el_kids x) \<Longrightarrow> el_id k = old
   \<Longrightarrow> det_list b p old F \<noteq> []"
proof (induction F arbitrary: b rule: measure_induct_rule [where f = "size_list size"])
  case (less F)
  show ?case
  proof (cases F)
    case Nil
    then show ?thesis using less.prems by simp
  next
    case (Cons y G)
    obtain i t a ks where y: "y = El i t a ks" by (cases y)
    consider "x = y" | "x \<in> set (all_nodes ks)" | "x \<in> set (all_nodes G)"
      using less.prems(1) Cons y by (auto simp: all_nodes_def)
    then show ?thesis
    proof cases
      case 1
      then have "i = p" "k \<in> set ks" using less.prems y by auto
      then have "det_list True p old ks \<noteq> []"
        using less.prems(4) by (auto simp: det_list_def)
      then show ?thesis using Cons y \<open>i = p\<close>
        by (auto simp: detach_in_unfold simp del: detach_in.simps)
    next
      case 2
      then have "det_list (i = p) p old ks \<noteq> []"
        using less.IH [of ks] less.prems Cons y by simp
      then show ?thesis using Cons y
        by (auto simp: detach_in_unfold simp del: detach_in.simps)
    next
      case 3
      then have "det_list b p old G \<noteq> []"
        using less.IH [of G] less.prems Cons by simp
      then show ?thesis using Cons by simp
    qed
  qed
qed

lemma distinct_roots_kids:
  assumes "distinct (ids F)"
  shows "distinct (map el_id F @ kid_ids F)"
proof -
  have "mset (ids F) = mset (map el_id F @ kid_ids F)"
    by (simp add: mset_ids_forest)
  then show ?thesis using assms mset_eq_imp_distinct_iff by blast
qed

lemma getparent_None_iff: "getparent h old = None \<longleftrightarrow> old \<notin> set (kid_ids (forest h))"
  by (auto simp: getparent_def find_None_iff kid_ids_def)

lemma getparent_SomeD:
  "getparent h old = Some p
   \<Longrightarrow> \<exists>x \<in> set (all_nodes (forest h)). el_id x = p \<and> old \<in> el_id ` set (el_kids x)"
  by (auto simp: getparent_def find_Some_iff)

lemma distinct_concat_map_unique:
  "distinct (concat (map g xs)) \<Longrightarrow> x \<in> set xs \<Longrightarrow> y \<in> set xs \<Longrightarrow> a \<in> set (g x)
   \<Longrightarrow> a \<in> set (g y) \<Longrightarrow> x = y"
  by (induction xs) auto

lemma parent_unique:
  assumes "distinct (ids F)" "x \<in> set (all_nodes F)" "y \<in> set (all_nodes F)"
    "old \<in> el_id ` set (el_kids x)" "old \<in> el_id ` set (el_kids y)"
  shows "x = y"
proof -
  have "distinct (kid_ids F)" using distinct_roots_kids [OF assms(1)] by simp
  then have "distinct (concat (map (\<lambda>x. map el_id (el_kids x)) (all_nodes F)))"
    by (simp add: kid_ids_def)
  from distinct_concat_map_unique [OF this assms(2,3), of old] assms(4,5)
  show ?thesis by simp
qed

lemma length_le_count_roots:
  "(\<And>d. d \<in> set D \<Longrightarrow> el_id d = old) \<Longrightarrow> length D \<le> count (mset (ids D)) old"
proof (induction D)
  case Nil
  then show ?case by simp
next
  case (Cons d D)
  obtain i t a ks where d: "d = El i t a ks" by (cases d)
  have "i = old" using Cons.prems [of d] d by simp
  moreover have "length D \<le> count (mset (ids D)) old" using Cons by simp
  ultimately show ?case using d by simp
qed

lemma replace_step:
  assumes dist: "distinct (ids (forest h))"
    and gp: "getparent h old = Some p"
    and leaf: "el_kids n = []"
    and fresh: "el_id n \<notin> set (ids (forest h))"
  shows "\<exists>d. det_list False p old (forest h) = [d] \<and> el_id d = old
          \<and> el_replace h p old n
              = Inr (h\<lparr>forest := repl_list False p old n (forest h) @ [d]\<rparr>)
          \<and> mset (ids (repl_list False p old n (forest h) @ [d]))
              = add_mset (el_id n) (mset (ids (forest h)))"
proof -
  let ?F = "forest h"
  let ?D = "det_list False p old ?F"
  obtain x where x: "x \<in> set (all_nodes ?F)" "el_id x = p" "old \<in> el_id ` set (el_kids x)"
    using getparent_SomeD [OF gp] by blast
  then obtain k where k: "k \<in> set (el_kids x)" "el_id k = old" by auto
  have ne: "?D \<noteq> []" using det_list_nonempty [OF x(1,2) k] .
  have old_in: "old \<in> set (ids ?F)"
  proof -
    have "old \<in> set (kid_ids ?F)" using x by (auto simp: kid_ids_def)
    then have "old \<in># mset (ids ?F)" unfolding mset_ids_forest by simp
    then show ?thesis by simp
  qed
  then have neq: "el_id n \<noteq> old" using fresh by auto
  have eq: "mset (ids (repl_list False p old n ?F)) + mset (ids ?D)
            = mset (ids ?F) + replicate_mset (length ?D) (el_id n)"
    by (rule repl_det_mset [OF leaf])
  have "length ?D \<le> count (mset (ids ?D)) old"
    by (rule length_le_count_roots) (rule det_list_roots)
  also have "\<dots> \<le> count (mset (ids (repl_list False p old n ?F)) + mset (ids ?D)) old"
    by simp
  also have "\<dots> = count (mset (ids ?F)) old" unfolding eq using neq by simp
  also have "\<dots> \<le> 1" using dist by (simp add: distinct_count_atmost_1)
  finally have "length ?D \<le> 1" .
  with ne obtain d where d: "?D = [d]" by (cases ?D) auto
  then have did: "el_id d = old" using det_list_roots [of d False p old ?F] by simp
  have "mset (ids (repl_list False p old n ?F @ [d])) = add_mset (el_id n) (mset (ids ?F))"
    using eq d by simp
  moreover have "el_replace h p old n = Inr (h\<lparr>forest := repl_list False p old n ?F @ [d]\<rparr>)"
    using gp d by (simp add: el_replace_def map_replace_in concat_detach_in)
  ultimately show ?thesis using d did by blast
qed

lemma render_empty [simp]: "render (\<lambda>i. None) t = snapshot t"
  by (induction t) simp

lemma render_leaf: "el_kids n = [] \<Longrightarrow> render m n = snapshot n"
  by (cases n) simp

lemma nodes_self: "t \<in> set (nodes t)"
  by (cases t) simp

lemma nodes_kid: "k \<in> set ks \<Longrightarrow> x \<in> set (nodes k) \<Longrightarrow> x \<in> set (nodes (El i t a ks))"
  by auto

lemma render_replace:
  assumes "m (el_id n) = None" "el_kids n = []"
  shows "(\<And>x. x \<in> set (nodes t) \<Longrightarrow> old \<in> el_id ` set (el_kids x) \<Longrightarrow> el_id x = p)
         \<Longrightarrow> render (m(old \<mapsto> snapshot n)) t = render m (replace_in p old n t)"
proof (induction t)
  case (El i t a ks)
  let ?K = "\<lambda>k. if i = p \<and> el_id k = old then n else replace_in p old n k"
  have kid: "(case (m(old \<mapsto> snapshot n)) (el_id k) of Some x \<Rightarrow> x
               | None \<Rightarrow> render (m(old \<mapsto> snapshot n)) k)
             = (case m (el_id (?K k)) of Some x \<Rightarrow> x | None \<Rightarrow> render m (?K k))"
    if k: "k \<in> set ks" for k
  proof (cases "el_id k = old")
    case True
    have "i = p" using El.prems [of "El i t a ks"] k True by auto
    then show ?thesis using True assms by (simp add: render_leaf)
  next
    case False
    have "render (m(old \<mapsto> snapshot n)) k = render m (replace_in p old n k)"
      using El.IH [OF k] El.prems nodes_kid [OF k] by blast
    then show ?thesis using False by (cases "m (el_id k)") simp_all
  qed
  have "map (\<lambda>k. case (m(old \<mapsto> snapshot n)) (el_id k) of Some x \<Rightarrow> x
               | None \<Rightarrow> render (m(old \<mapsto> snapshot n)) k) ks
        = map (\<lambda>k. case m (el_id (?K k)) of Some x \<Rightarrow> x | None \<Rightarrow> render m (?K k)) ks"
    by (rule map_cong [OF refl]) (rule kid)
  then show ?case by (simp only: render.simps replace_in.simps list.map_comp comp_def)
qed

lemma repl_list_id:
  "old \<notin> set (kid_ids F) \<Longrightarrow> (b \<Longrightarrow> old \<notin> set (map el_id F)) \<Longrightarrow> repl_list b p old n F = F"
proof (induction F arbitrary: b rule: measure_induct_rule [where f = "size_list size"])
  case (less F)
  show ?case
  proof (cases F)
    case Nil
    then show ?thesis by simp
  next
    case (Cons x G)
    obtain i t a ks where x: "x = El i t a ks" by (cases x)
    have G: "repl_list b p old n G = G"
    proof (rule less.IH)
      show "size_list size G < size_list size F" using Cons by simp
      show "old \<notin> set (kid_ids G)" using less.prems(1) Cons x by simp
      show "old \<notin> set (map el_id G)" if b using less.prems(2) [OF that] Cons by simp
    qed
    have K: "repl_list (i = p) p old n ks = ks"
    proof (rule less.IH)
      show "size_list size ks < size_list size F" using Cons x by simp
      show "old \<notin> set (kid_ids ks)" using less.prems(1) Cons x by simp
      show "old \<notin> set (map el_id ks)" using less.prems(1) Cons x by simp
    qed
    have "\<not> (b \<and> i = old)" using less.prems(2) Cons x by auto
    then have "repl_list b p old n F = El i t a (repl_list (i = p) p old n ks) # repl_list b p old n G"
      using Cons x by (auto simp: replace_in_unfold simp del: replace_in.simps)
    then show ?thesis using G K Cons x by simp
  qed
qed

lemma find_distinct:
  "distinct (map f xs) \<Longrightarrow> x \<in> set xs \<Longrightarrow> find (\<lambda>e. f e = f x) xs = Some x"
  by (induction xs) (auto simp: rev_image_eqI)

lemma find_el_root:
  assumes "distinct (ids (forest h))" "k < length (forest h)"
  shows "find_el h (el_id (forest h ! k)) = Some (forest h ! k)"
proof -
  have "forest h ! k \<in> set (all_nodes (forest h))"
    using assms(2) nodes_self [of "forest h ! k"] by (auto simp: all_nodes_def)
  then show ?thesis
    using find_distinct [of el_id "all_nodes (forest h)" "forest h ! k"] assms(1)
    by (simp add: find_el_def ids_def)
qed

lemma kid_ids_after_step:
  assumes "mset (ids (F' @ [d])) = add_mset j (mset (ids F))"
    "map el_id F' = map el_id F" "el_id d = old" "o' \<in> set (kid_ids F)" "o' \<noteq> old"
  shows "o' \<in> set (kid_ids (F' @ [d]))"
proof -
  have "mset (map el_id (F' @ [d])) + mset (kid_ids (F' @ [d]))
        = add_mset j (mset (map el_id F) + mset (kid_ids F))"
    using assms(1) by (simp only: mset_ids_forest)
  then have "add_mset old (mset (kid_ids (F' @ [d]))) = add_mset j (mset (kid_ids F))"
    using assms(2,3) by simp
  moreover have "o' \<in># add_mset j (mset (kid_ids F))" using assms(4) by simp
  ultimately have "o' \<in># add_mset old (mset (kid_ids (F' @ [d])))" by simp
  then show ?thesis using assms(5) by simp
qed

lemma map_el_id_repl_list [simp]: "map el_id (repl_list False p old n F) = map el_id F"
  by (simp add: repl_list_def)

lemma repl_list_nth: "k < length F \<Longrightarrow> repl_list False p old n F ! k = replace_in p old n (F ! k)"
  by (simp add: repl_list_def)

lemma length_repl_list [simp]: "length (repl_list b p old n F) = length F"
  by (simp add: repl_list_def)

lemma kid_ids_subset_ids: "set (kid_ids F) \<subseteq> set (ids F)"
proof
  fix x assume "x \<in> set (kid_ids F)"
  then have "x \<in># mset (ids F)" unfolding mset_ids_forest by simp
  then show "x \<in> set (ids F)" by simp
qed

lemma root_ids_subset_ids: "set (map el_id F) \<subseteq> set (ids F)"
proof
  fix x assume "x \<in> set (map el_id F)"
  then have "x \<in># mset (map el_id F)" by simp
  then have "x \<in># mset (ids F)" unfolding mset_ids_forest by simp
  then show "x \<in> set (ids F)" by simp
qed

lemma root_parentless:
  assumes "distinct (ids (forest h))" "r \<in> set (map el_id (forest h))"
  shows "getparent h r = None"
  using distinct_roots_kids [OF assms(1)] assms(2) by (auto simp: getparent_None_iff)

lemma news_ok_step:
  assumes "news_ok F ((old, n) # sw)" "mset (ids F1) = add_mset (el_id n) (mset (ids F))"
  shows "news_ok F1 sw" "el_kids n = []" "el_id n \<notin> set (ids F)"
proof -
  have "mset (ids F1) = mset (el_id n # ids F)" using assms(2) by simp
  from mset_eq_setD [OF this] have "set (ids F1) = insert (el_id n) (set (ids F))"
    by simp
  then show "news_ok F1 sw" using assms(1) by (auto simp: news_ok_def)
  show "el_kids n = []" "el_id n \<notin> set (ids F)" using assms(1) by (auto simp: news_ok_def)
qed

lemma distinct_after_step:
  assumes "distinct (ids F)" "j \<notin> set (ids F)" "mset (ids F1) = add_mset j (mset (ids F))"
  shows "distinct (ids F1)"
proof -
  have "mset (ids F1) = mset (j # ids F)" using assms(3) by simp
  moreover have "distinct (j # ids F)" using assms(1,2) by simp
  ultimately show ?thesis using mset_eq_imp_distinct_iff by blast
qed

lemma apply_swaps_keeps_root:
  "distinct (ids (forest h)) \<Longrightarrow> r \<in> set (map el_id (forest h)) \<Longrightarrow> news_ok (forest h) sw
   \<Longrightarrow> distinct (ids (forest (snd (apply_swaps h sw))))
       \<and> r \<in> set (map el_id (forest (snd (apply_swaps h sw))))
       \<and> next_id (snd (apply_swaps h sw)) = next_id h"
proof (induction sw arbitrary: h)
  case Nil
  then show ?case by simp
next
  case (Cons a sw)
  obtain old n where a: "a = (old, n)" by (cases a)
  show ?case
  proof (cases "getparent h old")
    case None
    then show ?thesis using Cons.prems a by simp
  next
    case (Some p)
    have leaf: "el_kids n = []" and fresh: "el_id n \<notin> set (ids (forest h))"
      using Cons.prems(3) a by (auto simp: news_ok_def)
    from replace_step [OF Cons.prems(1) Some leaf fresh]
    obtain d where d: "el_id d = old"
      and rep: "el_replace h p old n = Inr (h\<lparr>forest := repl_list False p old n (forest h) @ [d]\<rparr>)"
      and ms: "mset (ids (repl_list False p old n (forest h) @ [d]))
               = add_mset (el_id n) (mset (ids (forest h)))"
      by blast
    let ?h1 = "h\<lparr>forest := repl_list False p old n (forest h) @ [d]\<rparr>"
    have 1: "distinct (ids (forest ?h1))"
      using distinct_after_step [OF Cons.prems(1) fresh ms] by simp
    have 2: "r \<in> set (map el_id (forest ?h1))" using Cons.prems(2) by simp
    have 3: "news_ok (forest ?h1) sw"
      using news_ok_step(1) [OF Cons.prems(3) [unfolded a] ms] by simp
    from Cons.IH [OF 1 2 3] show ?thesis using Some rep a by simp
  qed
qed

lemma apply_swaps_frame:
  "forest h = F0 @ G \<Longrightarrow> (\<And>old n. (old, n) \<in> set sw \<Longrightarrow> old \<notin> set (kid_ids F0))
   \<Longrightarrow> \<exists>G'. forest (snd (apply_swaps h sw)) = F0 @ G'"
proof (induction sw arbitrary: h G)
  case Nil
  then show ?case by simp
next
  case (Cons a sw)
  obtain old n where a: "a = (old, n)" by (cases a)
  show ?case
  proof (cases "getparent h old")
    case None
    then show ?thesis using Cons.prems a by simp
  next
    case (Some p)
    let ?h1 = "h\<lparr>forest := map (replace_in p old n) (forest h)
                             @ concat (map (detach_in p old) (forest h))\<rparr>"
    have "old \<notin> set (kid_ids F0)" using Cons.prems(2) [of old n] a by simp
    then have "repl_list False p old n F0 = F0" by (rule repl_list_id) simp
    then have "forest ?h1 = F0 @ (map (replace_in p old n) G
                                   @ concat (map (detach_in p old) (forest h)))"
      using Cons.prems(1) by (simp add: map_replace_in)
    from Cons.IH [OF this] Cons.prems(2)
    obtain G' where "forest (snd (apply_swaps ?h1 sw)) = F0 @ G'" by auto
    then show ?thesis using Some a by (simp add: el_replace_def)
  qed
qed

lemma apply_swaps_success:
  "distinct (ids (forest h)) \<Longrightarrow> k < length (forest h) \<Longrightarrow> news_ok (forest h) sw
   \<Longrightarrow> distinct (map fst sw) \<Longrightarrow> set (map fst sw) \<subseteq> set (kid_ids (forest h))
   \<Longrightarrow> \<exists>h'. apply_swaps h sw = (None, h')
          \<and> snapshot (forest h' ! k)
              = render (map_of (map (\<lambda>(old, n). (old, snapshot n)) sw)) (forest h ! k)
          \<and> el_id (forest h' ! k) = el_id (forest h ! k)
          \<and> k < length (forest h') \<and> distinct (ids (forest h'))"
proof (induction sw arbitrary: h)
  case Nil
  then show ?case by simp
next
  case (Cons a sw)
  obtain old n where a: "a = (old, n)" by (cases a)
  let ?F = "forest h"
  have "old \<in> set (kid_ids ?F)" using Cons.prems(5) a by simp
  then obtain p where gp: "getparent h old = Some p"
    using getparent_None_iff [of h old] by (cases "getparent h old") auto
  have leaf: "el_kids n = []" and fresh: "el_id n \<notin> set (ids ?F)"
    using Cons.prems(3) a by (auto simp: news_ok_def)
  from replace_step [OF Cons.prems(1) gp leaf fresh]
  obtain d where d: "el_id d = old"
    and rep: "el_replace h p old n = Inr (h\<lparr>forest := repl_list False p old n ?F @ [d]\<rparr>)"
    and ms: "mset (ids (repl_list False p old n ?F @ [d])) = add_mset (el_id n) (mset (ids ?F))"
    by blast
  let ?h1 = "h\<lparr>forest := repl_list False p old n ?F @ [d]\<rparr>"
  have 1: "distinct (ids (forest ?h1))"
    using distinct_after_step [OF Cons.prems(1) fresh ms] by simp
  have 2: "k < length (forest ?h1)" using Cons.prems(2) by simp
  have 3: "news_ok (forest ?h1) sw"
    using news_ok_step(1) [OF Cons.prems(3) [unfolded a] ms] by simp
  have 4: "distinct (map fst sw)" using Cons.prems(4) by simp
  have 5: "set (map fst sw) \<subseteq> set (kid_ids (forest ?h1))"
  proof
    fix o' assume o': "o' \<in> set (map fst sw)"
    then have "o' \<in> set (kid_ids ?F)" "o' \<noteq> old" using Cons.prems(4,5) a by auto
    then show "o' \<in> set (kid_ids (forest ?h1))"
      using kid_ids_after_step [OF ms _ d, of o'] by simp
  qed
  from Cons.IH [OF 1 2 3 4 5]
  obtain h' where h': "apply_swaps ?h1 sw = (None, h')"
    "snapshot (forest h' ! k)
       = render (map_of (map (\<lambda>(old, n). (old, snapshot n)) sw)) (forest ?h1 ! k)"
    "el_id (forest h' ! k) = el_id (forest ?h1 ! k)"
    "k < length (forest h')" "distinct (ids (forest h'))"
    by blast
  have nth: "forest ?h1 ! k = replace_in p old n (?F ! k)"
    using Cons.prems(2) by (simp add: nth_append repl_list_nth)
  let ?m = "map_of (map (\<lambda>(old, n). (old, snapshot n)) sw)"
  have mnone: "?m (el_id n) = None"
  proof -
    have "el_id n \<notin> set (map fst sw)"
      using Cons.prems(5) kid_ids_subset_ids [of ?F] fresh by auto
    then have "el_id n \<notin> fst ` set (map (\<lambda>(old, n). (old, snapshot n)) sw)"
      by (auto simp: image_iff)
    then show ?thesis by (simp add: map_of_eq_None_iff)
  qed
  have par: "el_id x = p"
    if "x \<in> set (nodes (?F ! k))" "old \<in> el_id ` set (el_kids x)" for x
  proof -
    obtain y where y: "y \<in> set (all_nodes ?F)" "el_id y = p" "old \<in> el_id ` set (el_kids y)"
      using getparent_SomeD [OF gp] by blast
    have "x \<in> set (all_nodes ?F)"
      using that(1) Cons.prems(2) by (auto simp: all_nodes_def)
    from parent_unique [OF Cons.prems(1) this y(1) that(2) y(3)] y(2) show ?thesis by simp
  qed
  have "render (?m(old \<mapsto> snapshot n)) (?F ! k) = render ?m (replace_in p old n (?F ! k))"
    using render_replace [of ?m n "?F ! k" old p] mnone leaf par by blast
  then have "snapshot (forest h' ! k)
             = render (map_of (map (\<lambda>(old, n). (old, snapshot n)) (a # sw))) (?F ! k)"
    using h'(2) nth a by simp
  moreover have "apply_swaps h (a # sw) = (None, h')" using gp rep h'(1) a by simp
  moreover have "el_id (forest h' ! k) = el_id (?F ! k)" using h'(3) nth by simp
  ultimately show ?case using h'(4,5) by blast
qed

lemma not_ident_clip: "py_identifier n \<Longrightarrow> n \<noteq> ''clip-path''"
  by (auto simp: py_identifier_def ident_chars_def)

lemma field_attr_clip [simp]: "field_attr ''clip_path'' = ''clip-path''"
  by (simp add: field_attr_def FIELD_RENAMES_def ATTR_RENAMES_def)

lemma field_attr_other: "n \<noteq> ''clip_path'' \<Longrightarrow> field_attr n = n"
  by (simp add: field_attr_def FIELD_RENAMES_def ATTR_RENAMES_def)

lemma field_attr_inj:
  "py_identifier a \<Longrightarrow> py_identifier b \<Longrightarrow> field_attr a = field_attr b \<Longrightarrow> a = b"
  using not_ident_clip [of a] not_ident_clip [of b]
  by (cases "a = ''clip_path''"; cases "b = ''clip_path''") (simp_all add: field_attr_other)

lemma wf_names_attrs: "wf_names ns \<Longrightarrow> distinct (map field_attr ns)"
proof (induction ns)
  case Nil
  then show ?case by simp
next
  case (Cons a ns)
  have "field_attr a \<notin> field_attr ` set ns"
  proof
    assume "field_attr a \<in> field_attr ` set ns"
    then obtain b where b: "b \<in> set ns" "field_attr a = field_attr b" by auto
    then have "py_identifier a" "py_identifier b"
      using Cons.prems by (auto simp: wf_names_def list_all_iff)
    then have "a = b" using b(2) by (rule field_attr_inj)
    then show False using b(1) Cons.prems by (simp add: wf_names_def)
  qed
  then show ?case using Cons by (simp add: wf_names_def)
qed

lemma omit_set [simp]: "n \<in> set OMIT_FIELD_IF_BLANK \<longleftrightarrow> n = ''clip_path''"
  by (simp add: OMIT_FIELD_IF_BLANK_def)

lemma attrib_set_fresh: "k \<notin> fst ` set acc \<Longrightarrow> attrib_set k v acc = acc @ [(k, v)]"
  by (induction acc) auto

lemma fst_written: "fst ` set (written vs) \<subseteq> field_attr ` fst ` set vs"
  by (induction vs rule: written.induct) (auto split: pyval.splits)

lemma write_fields_ok:
  "writable vs \<Longrightarrow> distinct (map (field_attr \<circ> fst) vs)
   \<Longrightarrow> field_attr ` fst ` set vs \<inter> fst ` set acc = {}
   \<Longrightarrow> write_fields vs acc = Inr (acc @ written vs)"
proof (induction vs arbitrary: acc)
  case Nil
  then show ?case by simp
next
  case (Cons a vs)
  obtain n v where a: "a = (n, v)" by (cases a)
  have w: "writable vs" and dist: "distinct (map (field_attr \<circ> fst) vs)"
    using Cons.prems(1,2) by (simp_all add: writable_def comp_def)
  show ?case
  proof (cases "omitted n v")
    case True
    have "field_attr ` fst ` set vs \<inter> fst ` set acc = {}" using Cons.prems(3) by auto
    from Cons.IH [OF w dist this] show ?thesis using True a by (simp add: omitted_def)
  next
    case False
    then obtain s where v: "v = PyStr s" and x: "xml_compatible s"
      using Cons.prems(1) a by (cases v) (auto simp: writable_def)
    have fresh: "field_attr n \<notin> fst ` set acc" using Cons.prems(3) a by auto
    have "field_attr ` fst ` set vs \<inter> fst ` set (acc @ [(field_attr n, s)]) = {}"
      using Cons.prems(2,3) a by (auto simp: image_iff)
    from Cons.IH [OF w dist this] show ?thesis
      using False v x fresh a by (auto simp: omitted_def attrib_set_fresh)
  qed
qed

lemma write_fields_fail:
  "\<not> writable vs \<Longrightarrow> write_fields vs acc = Inl TypeError \<or> write_fields vs acc = Inl ValueError"
proof (induction vs arbitrary: acc rule: written.induct)
  case 1
  then show ?case by (simp add: writable_def)
next
  case (2 n v vs)
  then show ?case
    by (cases v) (auto simp: writable_def omitted_def)
qed

lemma class_tag: "map_of (CLASS_ELEMENTS ns) c = Some (qname ns (tag_name c))"
  by (cases c) (simp_all add: CLASS_ELEMENTS_def base_classes_def)

lemma data_to_el_ok:
  assumes "writable (vals s)" "distinct (map (field_attr \<circ> fst) (vals s))"
  shows "data_to_el E h s =
           (Inr (El (next_id h) (qname (svgns E) (tag_name (cls s))) (written (vals s)) []),
            h\<lparr>next_id := Suc (next_id h)\<rparr>)"
  using write_fields_ok [OF assms, of "[]"]
  by (simp add: data_to_el_def class_tag etree_Element_def)

lemma data_to_el_fail:
  "\<not> writable (vals s)
   \<Longrightarrow> data_to_el E h s = (Inl TypeError, h\<lparr>next_id := Suc (next_id h)\<rparr>)
       \<or> data_to_el E h s = (Inl ValueError, h\<lparr>next_id := Suc (next_id h)\<rparr>)"
  using write_fields_fail [of "vals s" "[]"]
  by (auto simp: data_to_el_def class_tag etree_Element_def)

lemma data_to_el_heap:
  "data_to_el E h s = (r, h') \<Longrightarrow> h' = h\<lparr>next_id := Suc (next_id h)\<rparr>"
  by (auto simp: data_to_el_def class_tag etree_Element_def split: sum.splits)

lemma data_to_el_encoding:
  "(case fst (data_to_el E h s) of Inl e \<Rightarrow> Inl e | Inr el \<Rightarrow> Inr (snapshot el)) = encoding E s"
  by (auto simp: encoding_def data_to_el_def class_tag etree_Element_def split: sum.splits)

lemma data_to_el_new:
  "data_to_el E h s = (Inr el, h') \<Longrightarrow> el_id el = next_id h \<and> el_kids el = []"
  by (auto simp: data_to_el_def class_tag etree_Element_def split: sum.splits)

lemma keys_ELEMENT_CLASSES:
  "map fst (ELEMENT_CLASSES ns) = map (qname ns) (map fst base_classes) @ map fst base_classes"
  by (simp add: ELEMENT_CLASSES_def comp_def case_prod_beta)

lemma recognized_iff:
  "recognized E t \<longleftrightarrow>
     t \<in> set (map fst base_classes) \<or> t \<in> qname (svgns E) ` set (map fst base_classes)"
proof -
  have "map_of (ELEMENT_CLASSES (svgns E)) t \<noteq> None
        \<longleftrightarrow> t \<in> set (map fst (ELEMENT_CLASSES (svgns E)))"
    by (simp add: map_of_eq_None_iff)
  then show ?thesis unfolding keys_ELEMENT_CLASSES recognized_def by auto
qed

lemma el_to_data_unrecognized: "\<not> recognized E (el_tag el) \<Longrightarrow> el_to_data E el = Inl ValueError"
  by (simp add: recognized_def el_to_data_def)

lemma el_to_data_recognized: "el_to_data E el = Inr s \<Longrightarrow> recognized E (el_tag el)"
  by (auto simp: recognized_def el_to_data_def split: option.splits)

lemma build_args_keys: "build_args E fs atts = Inr args \<Longrightarrow> fst ` set args \<subseteq> fname ` set fs"
proof (induction fs arbitrary: args)
  case Nil
  then show ?case by simp
next
  case (Cons g fs)
  show ?case
  proof (cases "map_of atts (field_attr (fname g))")
    case None
    then have "build_args E fs atts = Inr args" using Cons.prems by simp
    from Cons.IH [OF this] show ?thesis by auto
  next
    case (Some a)
    then obtain v args' where rest: "build_args E fs atts = Inr args'"
      and args: "args = (fname g, v) # args'"
      using Cons.prems by (auto split: sum.splits)
    from Cons.IH [OF rest] show ?thesis using args by auto
  qed
qed

lemma build_args_lookup:
  "build_args E fs atts = Inr args \<Longrightarrow> distinct (map fname fs) \<Longrightarrow> f \<in> set fs
   \<Longrightarrow> (case map_of atts (field_attr (fname f)) of
          None \<Rightarrow> map_of args (fname f) = None
        | Some a \<Rightarrow> \<exists>v. convert E (ftype f) a = Inr v \<and> map_of args (fname f) = Some v)"
proof (induction fs arbitrary: args)
  case Nil
  then show ?case by simp
next
  case (Cons g fs)
  show ?case
  proof (cases "map_of atts (field_attr (fname g))")
    case None
    then have rest: "build_args E fs atts = Inr args" using Cons.prems(1) by simp
    show ?thesis
    proof (cases "f = g")
      case True
      have "fname g \<notin> fst ` set args"
        using build_args_keys [OF rest] Cons.prems(2) by auto
      then have "map_of args (fname g) = None" by (simp add: map_of_eq_None_iff)
      then show ?thesis unfolding True None by simp
    next
      case False
      then show ?thesis using Cons.IH [OF rest] Cons.prems by simp
    qed
  next
    case (Some a)
    then obtain v args' where v: "convert E (ftype g) a = Inr v"
      and rest: "build_args E fs atts = Inr args'" and args: "args = (fname g, v) # args'"
      using Cons.prems(1) by (auto split: sum.splits)
    show ?thesis
    proof (cases "f = g")
      case True
      have "map_of args (fname g) = Some v" using args by simp
      then show ?thesis unfolding True Some using v by simp
    next
      case False
      then have "f \<in> set fs" using Cons.prems(3) by simp
      moreover from this have "fname f \<noteq> fname g" using Cons.prems(2) by (metis distinct.simps(2) imageI list.simps(9) set_map)
      ultimately have "f \<in> set fs" "fname f \<noteq> fname g" by simp_all
      then show ?thesis using Cons.IH [OF rest, of ] Cons.prems(2) args
        by (auto split: option.splits)
    qed
  qed
qed

lemma construct_names: "construct fs args = Inr vs \<Longrightarrow> map fst vs = map fname fs"
  by (induction fs arbitrary: vs) (auto split: option.splits sum.splits)

lemma construct_lookup:
  "construct fs args = Inr vs \<Longrightarrow> distinct (map fname fs) \<Longrightarrow> f \<in> set fs
   \<Longrightarrow> map_of vs (fname f) = (case map_of args (fname f) of Some v \<Rightarrow> Some v | None \<Rightarrow> fdefault f)"
proof (induction fs arbitrary: vs)
  case Nil
  then show ?case by simp
next
  case (Cons g fs)
  then obtain v vs' where v: "(case map_of args (fname g) of Some v \<Rightarrow> Some v | None \<Rightarrow> fdefault g) = Some v"
    and rest: "construct fs args = Inr vs'" and vs: "vs = (fname g, v) # vs'"
    by (auto split: option.splits sum.splits)
  show ?case
  proof (cases "f = g")
    case True
    have "map_of vs (fname g) = Some v" using vs by simp
    then show ?thesis unfolding True using v by simp
  next
    case False
    then have "f \<in> set fs" using Cons.prems(3) by simp
    moreover from this have "fname f \<noteq> fname g" using Cons.prems(2) by (metis distinct.simps(2) imageI list.simps(9) set_map)
    ultimately have "f \<in> set fs" "fname f \<noteq> fname g" by simp_all
    then show ?thesis using Cons.IH [OF rest] Cons.prems(2) vs by simp
  qed
qed

lemma el_to_data_Inr:
  assumes "el_to_data E el = Inr s"
  shows "map_of (ELEMENT_CLASSES (svgns E)) (el_tag el) = Some (cls s)"
    and "map fst (vals s) = map fname (fields_of E (cls s))"
    and "distinct (map fname (fields_of E (cls s))) \<Longrightarrow> f \<in> set (fields_of E (cls s))
         \<Longrightarrow> (case map_of (el_attrib el) (field_attr (fname f)) of
                None \<Rightarrow> map_of (vals s) (fname f) = fdefault f
              | Some a \<Rightarrow> \<exists>v. convert E (ftype f) a = Inr v \<and> map_of (vals s) (fname f) = Some v)"
proof -
  obtain c args vs where c: "map_of (ELEMENT_CLASSES (svgns E)) (el_tag el) = Some c"
    and args: "build_args E (fields_of E c) (el_attrib el) = Inr args"
    and vs: "construct (fields_of E c) args = Inr vs" and s: "s = \<lparr>cls = c, vals = vs\<rparr>"
    using assms by (auto simp: el_to_data_def split: option.splits sum.splits)
  show "map_of (ELEMENT_CLASSES (svgns E)) (el_tag el) = Some (cls s)" using c s by simp
  show "map fst (vals s) = map fname (fields_of E (cls s))"
    using construct_names [OF vs] s by simp
  assume d: "distinct (map fname (fields_of E (cls s)))" and f: "f \<in> set (fields_of E (cls s))"
  have d': "distinct (map fname (fields_of E c))" and f': "f \<in> set (fields_of E c)"
    using d f s by simp_all
  show "case map_of (el_attrib el) (field_attr (fname f)) of
          None \<Rightarrow> map_of (vals s) (fname f) = fdefault f
        | Some a \<Rightarrow> \<exists>v. convert E (ftype f) a = Inr v \<and> map_of (vals s) (fname f) = Some v"
    using build_args_lookup [OF args d' f'] construct_lookup [OF vs d' f'] s
    by (auto split: option.splits)
qed

lemma collect_filter:
  "collect E els = collect E (filter (\<lambda>e. recognized E (el_tag e)) els)"
  by (induction els) (auto split: sum.splits)

lemma collect_Inr:
  "collect E els = Inr c
   \<Longrightarrow> list_all2 (\<lambda>(i, d) e. i = el_id e \<and> el_to_data E e = Inr d) c
         (filter (\<lambda>e. recognized E (el_tag e)) els)"
  by (induction els arbitrary: c) (auto split: sum.splits if_splits)

lemma collect_handles:
  "collect E els = Inr c \<Longrightarrow> map fst c = map el_id (filter (\<lambda>e. recognized E (el_tag e)) els)"
  by (induction els arbitrary: c) (auto split: sum.splits if_splits)

lemma collect_total:
  "(\<And>e. e \<in> set els \<Longrightarrow> recognized E (el_tag e) \<Longrightarrow> \<exists>d. el_to_data E e = Inr d)
   \<Longrightarrow> \<exists>c. collect E els = Inr c"
proof (induction els)
  case Nil
  then show ?case by simp
next
  case (Cons e els)
  then obtain c where c: "collect E els = Inr c" by auto
  show ?case
  proof (cases "recognized E (el_tag e)")
    case True
    then obtain d where "el_to_data E e = Inr d" using Cons.prems [of e] by auto
    then show ?thesis using True c by simp
  next
    case False
    then show ?thesis using c by simp
  qed
qed

lemma collect_none:
  "(\<And>e. e \<in> set els \<Longrightarrow> \<not> recognized E (el_tag e)) \<Longrightarrow> collect E els = Inr []"
  by (induction els) auto

lemma collect_nonempty:
  "collect E els = Inr c \<Longrightarrow> e \<in> set els \<Longrightarrow> recognized E (el_tag e) \<Longrightarrow> c \<noteq> []"
  using collect_handles [of E els c] by (auto simp: filter_empty_conv)

lemma el_tag_map_ids [simp]: "el_tag (map_ids f t) = el_tag t"
  by (cases t) simp

lemma el_attrib_map_ids [simp]: "el_attrib (map_ids f t) = el_attrib t"
  by (cases t) simp

lemma el_id_map_ids [simp]: "el_id (map_ids f t) = f (el_id t)"
  by (cases t) simp

lemma el_to_data_map_ids [simp]: "el_to_data E (map_ids f t) = el_to_data E t"
  by (cases t) (simp add: el_to_data_def split: option.split)

lemma nodes_map_ids: "nodes (map_ids f t) = map (map_ids f) (nodes t)"
  by (induction t) (simp add: map_concat comp_def cong: map_cong)

lemma snapshot_map_ids [simp]: "snapshot (map_ids f t) = snapshot t"
  by (induction t) (simp cong: map_cong)

lemma collect_map_ids:
  "collect E (map (map_ids f) els)
   = (case collect E els of Inl e \<Rightarrow> Inl e | Inr c \<Rightarrow> Inr (map (\<lambda>(i, d). (f i, d)) c))"
  by (induction els) (auto split: sum.splits)

lemma make_swaps_forest: "make_swaps E h c = (r, h') \<Longrightarrow> forest h' = forest h"
proof (induction c arbitrary: h r h')
  case Nil
  then show ?case by simp
next
  case (Cons a c)
  obtain old s where a: "a = (old, s)" by (cases a)
  obtain r1 h1 where d: "data_to_el E h s = (r1, h1)" by (cases "data_to_el E h s")
  have f1: "forest h1 = forest h" using data_to_el_heap [OF d] by simp
  show ?case
  proof (cases r1)
    case (Inl e)
    then show ?thesis using Cons.prems a d f1 by simp
  next
    case (Inr n)
    obtain r2 h2 where m: "make_swaps E h1 c = (r2, h2)" by (cases "make_swaps E h1 c")
    have "forest h2 = forest h1" using Cons.IH [OF m] .
    then show ?thesis using Cons.prems a d f1 Inr m by (auto split: sum.splits)
  qed
qed

lemma make_swaps_encode_all:
  "(case fst (make_swaps E h c) of Inl e \<Rightarrow> Inl e
      | Inr sw \<Rightarrow> Inr (map (\<lambda>(old, n). (old, snapshot n)) sw)) = encode_all E c"
proof (induction c arbitrary: h)
  case Nil
  then show ?case by simp
next
  case (Cons a c)
  obtain old s where a: "a = (old, s)" by (cases a)
  obtain r1 h1 where d: "data_to_el E h s = (r1, h1)" by (cases "data_to_el E h s")
  have e: "(case r1 of Inl e \<Rightarrow> Inl e | Inr el \<Rightarrow> Inr (snapshot el)) = encoding E s"
    using data_to_el_encoding [of E h s] d by simp
  show ?case
  proof (cases r1)
    case (Inl x)
    then show ?thesis using a d by (simp add: e [symmetric])
  next
    case (Inr n)
    obtain r2 h2 where m: "make_swaps E h1 c = (r2, h2)" by (cases "make_swaps E h1 c")
    have ih: "encode_all E c = (case r2 of Inl e \<Rightarrow> Inl e
                | Inr sw \<Rightarrow> Inr (map (\<lambda>(old, n). (old, snapshot n)) sw))"
      using Cons.IH [of h1] m by simp
    have en: "encoding E s = Inr (snapshot n)" using e Inr by simp
    show ?thesis using a d Inr m by (cases r2) (simp_all add: ih en)
  qed
qed

lemma make_swaps_Inr:
  "make_swaps E h c = (Inr sw, h')
   \<Longrightarrow> map fst sw = map fst c
       \<and> distinct (map (\<lambda>p. el_id (snd p)) sw)
       \<and> (\<forall>(old, n) \<in> set sw. el_kids n = [] \<and> next_id h \<le> el_id n)
       \<and> next_id h' = next_id h + length c"
proof (induction c arbitrary: h sw h')
  case Nil
  then show ?case by simp
next
  case (Cons a c)
  obtain old s where a: "a = (old, s)" by (cases a)
  obtain r1 h1 where d: "data_to_el E h s = (r1, h1)" by (cases "data_to_el E h s")
  obtain r2 h2 where m: "make_swaps E h1 c = (r2, h2)" by (cases "make_swaps E h1 c")
  obtain n sw' where r1: "r1 = Inr n" and r2: "r2 = Inr sw'" and sw: "sw = (old, n) # sw'"
    and h': "h' = h2"
    using Cons.prems a d m by (auto split: sum.splits)
  have n: "el_id n = next_id h" "el_kids n = []" using data_to_el_new d r1 by auto
  have h1: "next_id h1 = Suc (next_id h)" using data_to_el_heap [OF d] by simp
  have ih: "map fst sw' = map fst c" "distinct (map (\<lambda>p. el_id (snd p)) sw')"
    "\<forall>(old, n) \<in> set sw'. el_kids n = [] \<and> next_id h1 \<le> el_id n"
    "next_id h2 = next_id h1 + length c"
    using Cons.IH [of h1 sw' h2] m r2 by blast+
  have "el_id n \<notin> (\<lambda>p. el_id (snd p)) ` set sw'" using ih(3) n(1) h1 by fastforce
  moreover have "\<forall>(old, n) \<in> set sw'. el_kids n = [] \<and> next_id h \<le> el_id n"
    using ih(3) h1 by fastforce
  ultimately show ?case using ih(1,2,4) n h1 sw h' a by simp
qed

lemma make_swaps_news_ok:
  assumes "wf_heap h" "make_swaps E h c = (Inr sw, h')"
  shows "news_ok (forest h') sw"
proof -
  have m: "distinct (map (\<lambda>p. el_id (snd p)) sw)"
    and leaf: "\<forall>(old, n) \<in> set sw. el_kids n = [] \<and> next_id h \<le> el_id n"
    using make_swaps_Inr [OF assms(2)] by simp_all
  have f: "forest h' = forest h" using make_swaps_forest [OF assms(2)] .
  have "set (map (el_id \<circ> snd) sw) \<inter> set (ids (forest h)) = {}"
    using leaf assms(1) by (fastforce simp: wf_heap_def list_all_iff)
  then show ?thesis using m leaf f by (auto simp: news_ok_def comp_def)
qed

lemma getparent_forest: "forest h = forest h' \<Longrightarrow> getparent h i = getparent h' i"
  by (simp add: getparent_def)

lemma find_el_forest: "forest h = forest h' \<Longrightarrow> find_el h i = find_el h' i"
  by (simp add: find_el_def)

lemma etree_tostring_forest: "forest h = forest h' \<Longrightarrow> etree_tostring h i = etree_tostring h' i"
  by (simp add: etree_tostring_def find_el_def)

lemma tostring_unpopulated:
  "\<not> populated self \<Longrightarrow> tostring E h self = (etree_tostring h (svg_root self), h)"
  by (simp add: tostring_def)

lemma tostring_render:
  assumes wf: "wf_heap h" and k: "k < length (forest h)"
    and root: "el_id (forest h ! k) = svg_root self"
    and cache: "elements self = Some c" and d: "distinct (map fst c)"
    and par: "set (map fst c) \<subseteq> set (kid_ids (forest h))"
    and enc: "encode_all E c = Inr xs"
  shows "fst (tostring E h self) = Inr (render (map_of xs) (forest h ! k))"
proof (cases "c = []")
  case True
  have dist: "distinct (ids (forest h))" using wf by (simp add: wf_heap_def)
  have "etree_tostring h (svg_root self) = Inr (snapshot (forest h ! k))"
    using find_el_root [OF dist k] root by (simp add: etree_tostring_def)
  moreover have "xs = []" using enc True by simp
  moreover have "\<not> populated self" using cache True by (simp add: populated_def)
  ultimately show ?thesis by (simp add: tostring_unpopulated)
next
  case False
  then have pop: "populated self" using cache by (simp add: populated_def)
  obtain r1 h1 where m: "make_swaps E h c = (r1, h1)" by (cases "make_swaps E h c")
  then obtain sw where r1: "r1 = Inr sw" and xs: "map (\<lambda>(old, n). (old, snapshot n)) sw = xs"
    using make_swaps_encode_all [of E h c] enc by (cases r1) auto
  have f1: "forest h1 = forest h" using make_swaps_forest [OF m] .
  have dist: "distinct (ids (forest h1))" using wf f1 by (simp add: wf_heap_def)
  have news: "news_ok (forest h1) sw" using make_swaps_news_ok [OF wf] m r1 by simp
  have olds: "map fst sw = map fst c" using make_swaps_Inr m r1 by blast
  from apply_swaps_success [OF dist _ news, of k] k d par olds f1
  obtain h2 where h2: "apply_swaps h1 sw = (None, h2)"
    "snapshot (forest h2 ! k) = render (map_of (map (\<lambda>(old, n). (old, snapshot n)) sw)) (forest h1 ! k)"
    "el_id (forest h2 ! k) = el_id (forest h1 ! k)" "k < length (forest h2)"
    "distinct (ids (forest h2))"
    by auto
  have "etree_tostring h2 (svg_root self) = Inr (snapshot (forest h2 ! k))"
    using find_el_root [OF h2(5) h2(4)] h2(3) root f1 by (simp add: etree_tostring_def)
  then show ?thesis using pop cache m r1 h2(1,2) xs f1 by (simp add: tostring_def)
qed

lemma tostring_twice_fails:
  assumes wf: "wf_heap h" and pop: "populated self"
  shows "\<exists>e. fst (tostring E (snd (tostring E h self)) self) = Inl e
             \<and> ((\<exists>x. fst (tostring E h self) = Inr x) \<longrightarrow> e = AttributeError)"
proof -
  obtain c where cache: "elements self = Some c" and ne: "c \<noteq> []"
    using pop by (auto simp: populated_def split: option.splits)
  obtain old s c' where c: "c = (old, s) # c'" using ne by (cases c) auto
  obtain r1 h1 where m: "make_swaps E h c = (r1, h1)" by (cases "make_swaps E h c")
  have f1: "forest h1 = forest h" using make_swaps_forest [OF m] .
  show ?thesis
  proof (cases r1)
    case (Inl e)
    then have t1: "tostring E h self = (Inl e, h1)" using pop cache m by (simp add: tostring_def)
    have "encode_all E c = Inl e" using make_swaps_encode_all [of E h c] m Inl by simp
    then have "fst (make_swaps E h1 c) = Inl e"
      using make_swaps_encode_all [of E h1 c] by (cases "fst (make_swaps E h1 c)") auto
    then have "fst (tostring E h1 self) = Inl e"
      using pop cache by (cases "make_swaps E h1 c") (simp add: tostring_def)
    then show ?thesis using t1 by simp
  next
    case (Inr sw)
    have enc: "encode_all E c = Inr (map (\<lambda>(old, n). (old, snapshot n)) sw)"
      using make_swaps_encode_all [of E h c] m Inr by simp
    have olds: "map fst sw = map fst c" using make_swaps_Inr m Inr by blast
    then obtain n sw' where sw: "sw = (old, n) # sw'" using c by (cases sw) auto
    have news: "news_ok (forest h1) sw" using make_swaps_news_ok [OF wf] m Inr by simp
    have dist: "distinct (ids (forest h1))" using wf f1 by (simp add: wf_heap_def)
    obtain r2 h2 where a: "apply_swaps h1 sw = (r2, h2)" by (cases "apply_swaps h1 sw")
    have t1: "tostring E h self = (case r2 of Some e \<Rightarrow> Inl e
                                    | None \<Rightarrow> etree_tostring h2 (svg_root self), h2)"
      using pop cache m Inr a by (cases r2) (simp_all add: tostring_def)
    have gone: "getparent h2 old = None"
    proof (cases "getparent h1 old")
      case None
      then show ?thesis using a sw by simp
    next
      case (Some p)
      have leaf: "el_kids n = []" and fresh: "el_id n \<notin> set (ids (forest h1))"
        using news sw by (auto simp: news_ok_def)
      from replace_step [OF dist Some leaf fresh]
      obtain d where d: "el_id d = old"
        and rep: "el_replace h1 p old n = Inr (h1\<lparr>forest := repl_list False p old n (forest h1) @ [d]\<rparr>)"
        and ms: "mset (ids (repl_list False p old n (forest h1) @ [d]))
                 = add_mset (el_id n) (mset (ids (forest h1)))"
        by blast
      let ?h = "h1\<lparr>forest := repl_list False p old n (forest h1) @ [d]\<rparr>"
      have 1: "distinct (ids (forest ?h))"
        using distinct_after_step [OF dist fresh ms] by simp
      have 2: "old \<in> set (map el_id (forest ?h))" using d by simp
      have 3: "news_ok (forest ?h) sw'"
        using news_ok_step(1) [OF news [unfolded sw] ms] by simp
      have "h2 = snd (apply_swaps ?h sw')" using a sw Some rep by simp
      then show ?thesis using apply_swaps_keeps_root [OF 1 2 3] root_parentless by simp
    qed
    obtain r3 h3 where m2: "make_swaps E h2 c = (r3, h3)" by (cases "make_swaps E h2 c")
    have f3: "forest h3 = forest h2" using make_swaps_forest [OF m2] .
    obtain sw2 where r3: "r3 = Inr sw2"
      using make_swaps_encode_all [of E h2 c] m2 enc by (cases r3) auto
    have "map fst sw2 = map fst c" using make_swaps_Inr m2 r3 by blast
    then obtain n2 sw2' where sw2: "sw2 = (old, n2) # sw2'" using c by (cases sw2) auto
    have "getparent h3 old = None" using gone getparent_forest [OF f3] by simp
    then have "apply_swaps h3 sw2 = (Some AttributeError, h3)" using sw2 by simp
    then have "fst (tostring E h2 self) = Inl AttributeError"
      using pop cache m2 r3 by (simp add: tostring_def)
    moreover have "snd (tostring E h self) = h2" using t1 by simp
    ultimately show ?thesis by simp
  qed
qed

lemma walk_unfold:
  "find_el h (svg_root self) = Some t
   \<Longrightarrow> walk E h self = (case collect E (nodes t) of Inl e \<Rightarrow> Inl e
                          | Inr c \<Rightarrow> Inr (c, self\<lparr>elements := Some c\<rparr>))"
  by (simp add: walk_def)

lemma shapes_unpopulated:
  "\<not> populated self \<Longrightarrow> find_el h (svg_root self) = Some t
   \<Longrightarrow> shapes E h self = (case collect E (nodes t) of Inl e \<Rightarrow> Inl e
                             | Inr c \<Rightarrow> Inr (map snd c, self\<lparr>elements := Some c\<rparr>))"
  by (simp add: shapes_def SVG_elements_def walk_unfold split: sum.splits)

lemma collect_shapes:
  "collect E els = Inr c
   \<Longrightarrow> list_all2 (\<lambda>d e. el_to_data E e = Inr d) (map snd c)
         (filter (\<lambda>e. recognized E (el_tag e)) els)"
  using collect_Inr [of E els c]
  by (auto simp: list_all2_map1 case_prod_beta elim: list_all2_mono)

lemma not_populated_SVG [simp]: "\<not> populated (SVG r)"
  by (simp add: populated_def SVG_def)

lemma small_find: "find_el small_heap 0 = Some small_tree"
  by (simp add: find_el_def small_heap_def small_tree_def)

lemma example_recognized:
  "\<not> recognized example_env ''svg''" "\<not> recognized example_env ''g''"
  "recognized example_env ''path''"
  by (simp_all add: recognized_def ELEMENT_CLASSES_def base_classes_def qname_def example_env_def)

lemma small_path_decodes:
  "el_to_data example_env (El 1 ''path'' [(''d'', ''M0,0''), (''fill'', ''red'')] [])
   = Inr \<lparr>cls = SVGPath, vals = [(''clip_path'', PyStr []), (''opacity'', PyStr []),
                                   (''fill'', PyStr ''red''), (''stroke'', PyStr []),
                                   (''d'', PyStr ''M0,0'')]\<rparr>"
  by (simp add: el_to_data_def ELEMENT_CLASSES_def base_classes_def qname_def example_env_def
      spec_fields_def spec_common_def str_field_def field_attr_def FIELD_RENAMES_def
      ATTR_RENAMES_def convert_def)

lemma written_keys:
  "k \<in> fst ` set (written vs)
   \<Longrightarrow> \<exists>n s. (n, PyStr s) \<in> set vs \<and> \<not> omitted n (PyStr s) \<and> k = field_attr n"
proof (induction vs)
  case Nil
  then show ?case by simp
next
  case (Cons a vs)
  obtain m w where a: "a = (m, w)" by (cases a)
  show ?case
  proof (cases "omitted m w")
    case True
    then show ?thesis using Cons a by auto
  next
    case False
    show ?thesis
    proof (cases w)
      case (PyStr s)
      then show ?thesis using Cons a False by auto
    next
      case (PyFloat r)
      then show ?thesis using Cons a False by auto
    qed
  qed
qed

lemma written_lookup:
  "distinct (map (\<lambda>p. field_attr (fst p)) vs) \<Longrightarrow> (n, PyStr v) \<in> set vs
   \<Longrightarrow> \<not> omitted n (PyStr v) \<Longrightarrow> map_of (written vs) (field_attr n) = Some v"
proof (induction vs)
  case Nil
  then show ?case by simp
next
  case (Cons a vs)
  obtain m w where a: "a = (m, w)" by (cases a)
  have d: "distinct (map (\<lambda>p. field_attr (fst p)) vs)" using Cons.prems(1) by simp
  show ?case
  proof (cases "a = (n, PyStr v)")
    case True
    then show ?thesis using Cons.prems(3) a by simp
  next
    case False
    then have tl: "(n, PyStr v) \<in> set vs" using Cons.prems(2) by simp
    then have ne: "field_attr m \<noteq> field_attr n"
      using Cons.prems(1) a by (auto simp: image_iff)
    have ih: "map_of (written vs) (field_attr n) = Some v"
      using Cons.IH [OF d tl Cons.prems(3)] .
    show ?thesis using ih ne a by (cases w) auto
  qed
qed

lemma wf_names_vals:
  "wf_names (map fst vs) \<Longrightarrow> distinct (map (\<lambda>p. field_attr (fst p)) vs)"
  using wf_names_attrs [of "map fst vs"] by (simp add: comp_def)

lemma wf_names_ident: "wf_names (map fst vs) \<Longrightarrow> (n, v) \<in> set vs \<Longrightarrow> py_identifier n"
  by (auto simp: wf_names_def list_all_iff)

lemma wf_names_unique:
  "wf_names (map fst vs) \<Longrightarrow> map_of vs n = Some v \<Longrightarrow> (n, w) \<in> set vs \<Longrightarrow> w = v"
  by (simp add: wf_names_def)

lemma data_to_el_cases:
  assumes "wf_names (map fst (vals s))"
  shows "(writable (vals s) \<longrightarrow>
            data_to_el E h s =
              (Inr (El (next_id h) (qname (svgns E) (tag_name (cls s))) (written (vals s)) []),
               h\<lparr>next_id := Suc (next_id h)\<rparr>))
       \<and> (\<not> writable (vals s) \<longrightarrow> fst (data_to_el E h s) = Inl TypeError
                                     \<or> fst (data_to_el E h s) = Inl ValueError)"
  using data_to_el_ok [of s E h] data_to_el_fail [of s E h] wf_names_vals [OF assms]
  by (auto simp: comp_def)

lemma ident_examples:
  "py_identifier ''clip_path''" "py_identifier ''fill''" "py_identifier ''d''"
  "py_identifier ''opacity''" "py_identifier ''stroke''"
  by (simp_all add: py_identifier_def ident_chars_def)

lemma example_path_fields:
  "map fname (fields_of example_env SVGPath) = [''clip_path'', ''opacity'', ''fill'', ''stroke'', ''d'']"
  by (simp add: example_env_def spec_fields_def spec_common_def str_field_def)

lemma wf_names_example: "wf_names [''clip_path'', ''opacity'', ''fill'', ''stroke'', ''d'']"
  using ident_examples by (simp add: wf_names_def)

lemma clipped_path_decodes:
  "el_to_data example_env (El 1 ''path'' [(''d'', ''M1,1''), (''clip-path'', ''url(#c)'')] [])
   = Inr \<lparr>cls = SVGPath, vals = [(''clip_path'', PyStr ''url(#c)''), (''opacity'', PyStr []),
                                   (''fill'', PyStr []), (''stroke'', PyStr []),
                                   (''d'', PyStr ''M1,1'')]\<rparr>"
  by (simp add: el_to_data_def ELEMENT_CLASSES_def base_classes_def qname_def example_env_def
      spec_fields_def spec_common_def str_field_def field_attr_def FIELD_RENAMES_def
      ATTR_RENAMES_def convert_def)

lemma SVG_elements_unpopulated: "\<not> populated self \<Longrightarrow> SVG_elements E h self = walk E h self"
  by (simp add: SVG_elements_def)

lemma walk_root_only: "svg_root self' = svg_root self \<Longrightarrow> walk E h self' = (case walk E h self of Inl e \<Rightarrow> Inl e | Inr (c, s) \<Rightarrow> Inr (c, self'\<lparr>elements := Some c\<rparr>))"
  by (simp add: walk_def split: option.splits sum.splits)

lemma etree_tostring_found: "find_el h r = Some t \<Longrightarrow> etree_tostring h r = Inr (snapshot t)"
  by (simp add: etree_tostring_def)

lemma plain_find: "find_el plain_heap 0 = Some (El 0 ''svg'' [] [El 1 ''g'' [] [El 2 ''title'' [] []]])"
  by (simp add: find_el_def plain_heap_def)

lemma plain_unrecognized:
  "\<not> recognized example_env ''svg''" "\<not> recognized example_env ''g''"
  "\<not> recognized example_env ''title''"
  by (simp_all add: recognized_def ELEMENT_CLASSES_def base_classes_def qname_def example_env_def)

lemma spec_as_path_total:
  "\<exists>p. spec_as_path pd s = Inr p \<and> cls p = SVGPath \<and> spec_as_path pd p = Inr p"
  by (simp add: spec_as_path_def)

lemma convert_all_spec:
  "\<exists>c'. convert_all (spec_as_path pd) c = (None, c')
        \<and> convert_all (spec_as_path pd) c' = (None, c') \<and> (c' = [] \<longleftrightarrow> c = [])"
proof (induction c)
  case Nil
  then show ?case by simp
next
  case (Cons a c)
  obtain i s where a: "a = (i, s)" by (cases a)
  obtain p where p: "spec_as_path pd s = Inr p" "spec_as_path pd p = Inr p"
    using spec_as_path_total by blast
  obtain c' where c': "convert_all (spec_as_path pd) c = (None, c')"
    "convert_all (spec_as_path pd) c' = (None, c')"
    using Cons by blast
  have "convert_all (spec_as_path pd) (a # c) = (None, (i, p) # c')" using a p c' by simp
  moreover have "convert_all (spec_as_path pd) ((i, p) # c') = (None, (i, p) # c')"
    using p c' by simp
  ultimately show ?case by blast
qed

lemma shapes_to_paths_inplace_twice:
  assumes ap: "as_path E = spec_as_path pd"
    and run: "shapes_to_paths_inplace E h self = (Inr s1, self')"
  shows "shapes_to_paths_inplace E h s1 = (Inr s1, s1)"
proof -
  obtain c self1 where e: "SVG_elements E h self = Inr (c, self1)"
    using run by (cases "SVG_elements E h self") (auto simp: shapes_to_paths_inplace_def)
  obtain c' where c': "convert_all (spec_as_path pd) c = (None, c')"
    "convert_all (spec_as_path pd) c' = (None, c')" "c' = [] \<longleftrightarrow> c = []"
    using convert_all_spec by blast
  have s1: "s1 = self1\<lparr>elements := Some c'\<rparr>"
    using run e c'(1) ap by (simp add: shapes_to_paths_inplace_def)
  show ?thesis
  proof (cases "c = []")
    case False
    then have "populated s1" using s1 c'(3) by (simp add: populated_def)
    then have "SVG_elements E h s1 = Inr (c', s1)" using s1 by (simp add: SVG_elements_def)
    then show ?thesis using c'(2) ap s1 by (simp add: shapes_to_paths_inplace_def)
  next
    case True
    then have np: "\<not> populated self"
      using e by (auto simp: SVG_elements_def populated_def split: if_splits option.splits)
    then have w: "walk E h self = Inr ([], self1)" using e True by (simp add: SVG_elements_def)
    then have self1: "self1 = self\<lparr>elements := Some []\<rparr>"
      by (auto simp: walk_def split: option.splits sum.splits)
    have s1': "s1 = self\<lparr>elements := Some []\<rparr>" using s1 self1 c'(3) True by simp
    have "\<not> populated s1" using s1' by (simp add: populated_def)
    moreover have "walk E h s1 = Inr ([], s1)"
      using w walk_root_only [of s1 self E h] s1' self1 by simp
    ultimately have "SVG_elements E h s1 = Inr ([], s1)" by (simp add: SVG_elements_def)
    then show ?thesis using s1' by (simp add: shapes_to_paths_inplace_def)
  qed
qed

lemma apply_swaps_detached:
  "distinct (ids (forest h)) \<Longrightarrow> news_ok (forest h) sw \<Longrightarrow> apply_swaps h sw = (None, h')
   \<Longrightarrow> (old, n) \<in> set sw \<Longrightarrow> old \<in> set (map el_id (forest h')) \<and> distinct (ids (forest h'))"
proof (induction sw arbitrary: h)
  case Nil
  then show ?case by simp
next
  case (Cons a sw)
  obtain o1 n1 where a: "a = (o1, n1)" by (cases a)
  obtain p where par: "getparent h o1 = Some p"
    using Cons.prems(3) a by (cases "getparent h o1") auto
  have leaf: "el_kids n1 = []" and fresh: "el_id n1 \<notin> set (ids (forest h))"
    using Cons.prems(2) a by (auto simp: news_ok_def)
  from replace_step [OF Cons.prems(1) par leaf fresh]
  obtain d where d: "el_id d = o1"
    and rep: "el_replace h p o1 n1 = Inr (h\<lparr>forest := repl_list False p o1 n1 (forest h) @ [d]\<rparr>)"
    and ms: "mset (ids (repl_list False p o1 n1 (forest h) @ [d]))
             = add_mset (el_id n1) (mset (ids (forest h)))"
    by blast
  let ?h1 = "h\<lparr>forest := repl_list False p o1 n1 (forest h) @ [d]\<rparr>"
  have 1: "distinct (ids (forest ?h1))"
    using distinct_after_step [OF Cons.prems(1) fresh ms] by simp
  have 3: "news_ok (forest ?h1) sw"
    using news_ok_step(1) [OF Cons.prems(2) [unfolded a] ms] by simp
  have run: "apply_swaps ?h1 sw = (None, h')" using Cons.prems(3) a par rep by simp
  show ?case
  proof (cases "(old, n) \<in> set sw")
    case True
    from Cons.IH [OF 1 3 run True] show ?thesis .
  next
    case False
    then have o: "old = o1" using Cons.prems(4) a by simp
    have 2: "old \<in> set (map el_id (forest ?h1))" using d o by simp
    from apply_swaps_keeps_root [OF 1 2 3] run show ?thesis by simp
  qed
qed

lemma tostring_detaches:
  assumes wf: "wf_heap h" and pop: "populated self" and cache: "elements self = Some c"
    and run: "tostring E h self = (Inr x, h')" and mem: "(old, s) \<in> set c"
  shows "getparent h' old = None"
proof -
  obtain r1 h1 where m: "make_swaps E h c = (r1, h1)" by (cases "make_swaps E h c")
  have f1: "forest h1 = forest h" using make_swaps_forest [OF m] .
  obtain sw where r1: "r1 = Inr sw"
    using run pop cache m by (cases r1) (auto simp: tostring_def)
  have olds: "map fst sw = map fst c" using make_swaps_Inr m r1 by blast
  have news: "news_ok (forest h1) sw" using make_swaps_news_ok [OF wf] m r1 by simp
  have dist: "distinct (ids (forest h1))" using wf f1 by (simp add: wf_heap_def)
  have a: "apply_swaps h1 sw = (None, h')"
    using run pop cache m r1
    by (cases "apply_swaps h1 sw") (auto simp: tostring_def split: option.splits)
  have "old \<in> set (map fst sw)" using olds mem by (metis fst_conv image_eqI set_map)
  then obtain n where "(old, n) \<in> set sw" by auto
  from apply_swaps_detached [OF dist news a this] show ?thesis using root_parentless by blast
qed

lemma wf_small: "wf_heap small_heap"
  by (simp add: wf_heap_def small_heap_def small_tree_def ids_def all_nodes_def)

lemma small_elements: "SVG_elements example_env small_heap (SVG 0) = Inr ([(1, small_shape)], small_cached)"
proof -
  have "collect example_env (nodes small_tree) = Inr [(1, small_shape)]"
    using example_recognized small_path_decodes by (simp add: small_tree_def small_shape_def)
  then show ?thesis
    using small_find
    by (simp add: SVG_elements_def populated_def walk_def SVG_def small_cached_def)
qed

lemma nodes_ids_kids: "mset (map el_id (nodes t)) = add_mset (el_id t) (mset (kid_ids [t]))"
  using mset_ids_forest [of "[t]"] by (simp add: ids_def all_nodes_def)

lemma kid_ids_member: "t \<in> set F \<Longrightarrow> set (kid_ids [t]) \<subseteq> set (kid_ids F)"
  by (auto simp: kid_ids_def all_nodes_def)

lemma nodes_distinct: "distinct (ids F) \<Longrightarrow> t \<in> set F \<Longrightarrow> distinct (map el_id (nodes t))"
proof (induction F)
  case Nil
  then show ?case by simp
next
  case (Cons a F)
  then show ?case by (auto simp: ids_def all_nodes_def)
qed

lemma walk_cache_ok:
  assumes dist: "distinct (ids F)" and t: "t \<in> set F" and root: "\<not> recognized E (el_tag t)"
    and col: "collect E (nodes t) = Inr c"
  shows "distinct (map fst c) \<and> set (map fst c) \<subseteq> set (kid_ids F)"
proof -
  obtain rest where n: "nodes t = t # rest" by (cases t) simp
  have h: "map fst c = map el_id (filter (\<lambda>e. recognized E (el_tag e)) rest)"
    using collect_handles [OF col] n root by simp
  have d: "distinct (map el_id (t # rest))" using nodes_distinct [OF dist t] n by simp
  then have 1: "distinct (map fst c)" using h by (simp add: distinct_map_filter)
  have "mset (map el_id rest) = mset (kid_ids [t])" using nodes_ids_kids [of t] n by simp
  then have "set (map el_id rest) = set (kid_ids [t])" by (rule mset_eq_setD)
  then have "set (map fst c) \<subseteq> set (kid_ids [t])" using h by auto
  then show ?thesis using 1 kid_ids_member [OF t] by blast
qed

lemma path_elements: "SVG_elements example_env path_heap (SVG 0) = Inr ([(0, path_shape)], path_cached)"
proof -
  have "el_to_data example_env (El 0 ''path'' [(''d'', ''M0,0''), (''id'', ''p'')] []) = Inr path_shape"
    by (simp add: el_to_data_def ELEMENT_CLASSES_def base_classes_def qname_def example_env_def
      spec_fields_def spec_common_def str_field_def field_attr_def FIELD_RENAMES_def
      ATTR_RENAMES_def convert_def path_shape_def)
  then have "collect example_env (nodes (El 0 ''path'' [(''d'', ''M0,0''), (''id'', ''p'')] []))
             = Inr [(0, path_shape)]"
    using example_recognized by simp
  then show ?thesis
    by (simp add: SVG_elements_def populated_def walk_def SVG_def path_cached_def find_el_def
        path_heap_def)
qed

lemma names_small: "distinct (map (field_attr \<circ> fst) (vals small_shape))" "writable (vals small_shape)"
  "distinct (map (field_attr \<circ> fst) (vals path_shape))" "writable (vals path_shape)"
  by (simp_all add: small_shape_def path_shape_def writable_def omitted_def xml_char_def field_attr_def
      FIELD_RENAMES_def ATTR_RENAMES_def)

lemma path_make_swaps:
  "make_swaps example_env path_heap [(0, path_shape)]
   = (Inr [(0, El 1 (qname (svgns example_env) ''path'') (written (vals path_shape)) [])],
      path_heap\<lparr>next_id := 2\<rparr>)"
  using data_to_el_ok [OF names_small(4,3), of example_env path_heap]
  by (simp add: path_heap_def path_shape_def)

lemma small_encode_all:
  "encode_all example_env [(1, small_shape)]
   = Inr [(1, Xml ''{http://www.w3.org/2000/svg}path''
                 [(''opacity'', []), (''fill'', ''red''), (''stroke'', []), (''d'', ''M0,0'')] [])]"
  using data_to_el_ok [OF names_small(2,1), of example_env "\<lparr>forest = [], next_id = 0\<rparr>"]
  by (simp add: encoding_def small_shape_def omitted_def field_attr_def FIELD_RENAMES_def ATTR_RENAMES_def
      qname_def example_env_def)

lemma find_app:
  "find P (xs @ ys) = (case find P xs of None \<Rightarrow> find P ys | Some x \<Rightarrow> Some x)"
  by (induction xs) simp_all

lemma find_el_SomeD: "find_el h i = Some t \<Longrightarrow> el_id t = i \<and> t \<in> set (all_nodes (forest h))"
  by (auto simp: find_el_def find_Some_iff)

lemma find_el_append:
  "find_el h i = Some t \<Longrightarrow> forest h' = forest h @ G \<Longrightarrow> find_el h' i = Some t"
  by (simp add: find_el_def find_app)

lemma find_el_fresh:
  "i \<notin> set (ids (forest h)) \<Longrightarrow> forest h' = forest h @ G
   \<Longrightarrow> find_el h' i = find (\<lambda>e. el_id e = i) (all_nodes G)"
proof -
  assume a: "i \<notin> set (ids (forest h))" and f: "forest h' = forest h @ G"
  have "find (\<lambda>e. el_id e = i) (all_nodes (forest h)) = None"
    using a by (auto simp: find_None_iff ids_def)
  then show ?thesis using f by (simp add: find_el_def find_app)
qed

lemma find_tree_root: "find (\<lambda>e. el_id e = el_id t) (all_nodes [t]) = Some t"
  by (cases t) simp

lemma nodes_sub: "x \<in> set (nodes t) \<Longrightarrow> mset (nodes x) \<subseteq># mset (nodes t)"
proof (induction t)
  case (El i tg a ks)
  show ?case
  proof (cases "x = El i tg a ks")
    case True
    then show ?thesis by simp
  next
    case False
    then obtain k where k: "k \<in> set ks" "x \<in> set (nodes k)" using El.prems by auto
    then have "mset (nodes x) \<subseteq># mset (nodes k)" using El.IH by blast
    moreover have "mset (nodes k) \<subseteq># mset (concat (map nodes ks))"
      using k(1) by (induction ks) (auto intro: subset_mset.add_increasing)
    ultimately show ?thesis
      by (simp add: subset_mset.add_increasing subset_mset.order_trans)
  qed
qed

lemma all_nodes_sub: "x \<in> set (all_nodes F) \<Longrightarrow> mset (nodes x) \<subseteq># mset (all_nodes F)"
proof (induction F)
  case Nil
  then show ?case by simp
next
  case (Cons t F)
  show ?case
  proof (cases "x \<in> set (nodes t)")
    case True
    then show ?thesis using nodes_sub [of x t] by (simp add: subset_mset.add_increasing2)
  next
    case False
    then have "mset (nodes x) \<subseteq># mset (all_nodes F)" using Cons by simp
    then show ?thesis by (simp add: subset_mset.add_increasing)
  qed
qed

lemma distinct_sub:
  assumes "mset xs \<subseteq># mset ys" "distinct ys"
  shows "distinct xs"
proof -
  have "count (mset ys) a \<le> 1" for a
    using assms(2) by (simp add: distinct_count_atmost_1)
  then have "count (mset xs) a \<le> 1" for a
    using mset_subset_eq_count [OF assms(1), of a] le_trans by blast
  then have "count (mset xs) a = (if a \<in> set xs then 1 else 0)" for a
    using count_greater_zero_iff [of "mset xs" a] by (auto simp: le_Suc_eq)
  then show ?thesis unfolding distinct_count_atmost_1 by blast
qed

lemma subtree_ids:
  assumes "distinct (ids F)" "x \<in> set (all_nodes F)"
  shows "distinct (ids [x])" "set (ids [x]) \<subseteq> set (ids F)"
proof -
  have s: "mset (ids [x]) \<subseteq># mset (ids F)"
    using all_nodes_sub [OF assms(2)] by (simp add: ids_def image_mset_subseteq_mono)
  show "distinct (ids [x])" using distinct_sub [OF s assms(1)] .
  show "set (ids [x]) \<subseteq> set (ids F)" using set_mset_mono [OF s] by simp
qed

lemma ids_map_ids: "ids [map_ids f t] = map f (ids [t])"
  by (simp add: ids_def nodes_map_ids comp_def)

lemma wf_deepcopy:
  assumes wf: "wf_heap h" and f: "find_el h r = Some t"
  shows "wf_heap \<lparr>forest = forest h @ [map_ids (\<lambda>i. i + next_id h) t],
                  next_id = next_id h + next_id h\<rparr>"
proof -
  have dist: "distinct (ids (forest h))" and lt: "\<forall>i \<in> set (ids (forest h)). i < next_id h"
    using wf by (simp_all add: wf_heap_def list_all_iff)
  have t: "t \<in> set (all_nodes (forest h))" using find_el_SomeD [OF f] by simp
  have d: "distinct (ids [t])" and s: "set (ids [t]) \<subseteq> set (ids (forest h))"
    using subtree_ids [OF dist t] by simp_all
  have "distinct (map (\<lambda>i. i + next_id h) (ids [t]))" using d by (simp add: distinct_map inj_on_def)
  moreover have "set (ids (forest h)) \<inter> set (map (\<lambda>i. i + next_id h) (ids [t])) = {}"
    using lt by fastforce
  moreover have "\<forall>i \<in> set (map (\<lambda>i. i + next_id h) (ids [t])). i < next_id h + next_id h"
    using lt s by auto
  moreover have "\<forall>i \<in> set (ids (forest h)). i < next_id h + next_id h" using lt by fastforce
  ultimately show ?thesis using dist by (auto simp add: wf_heap_def list_all_iff ids_map_ids)
qed

lemma convert_all_None:
  "convert_all ap c = (None, c') \<Longrightarrow> list_all2 (\<lambda>(i, d) (j, p). j = i \<and> ap d = Inr p) c c'"
proof (induction c arbitrary: c')
  case Nil
  then show ?case by simp
next
  case (Cons a c)
  obtain i d where a: "a = (i, d)" by (cases a)
  obtain p where p: "ap d = Inr p" using Cons.prems a by (cases "ap d") auto
  obtain r rest where r: "convert_all ap c = (r, rest)" by (cases "convert_all ap c")
  have "r = None" "c' = (i, p) # rest" using Cons.prems a p r by auto
  then show ?case using Cons.IH [of rest] r a p by simp
qed

lemma convert_all_handles: "map fst (snd (convert_all ap c)) = map fst c"
  by (induction c) (auto split: sum.splits prod.splits)

lemma tostring_frame:
  assumes f: "forest h = F0 @ G"
    and olds: "\<And>c old. elements self = Some c \<Longrightarrow> old \<in> set (map fst c) \<Longrightarrow> old \<notin> set (kid_ids F0)"
  shows "\<exists>G'. forest (snd (tostring E h self)) = F0 @ G'"
proof (cases "populated self")
  case False
  then show ?thesis using f by (simp add: tostring_def)
next
  case True
  then obtain c where cache: "elements self = Some c"
    by (auto simp: populated_def split: option.splits)
  obtain r1 h1 where m: "make_swaps E h c = (r1, h1)" by (cases "make_swaps E h c")
  have f1: "forest h1 = F0 @ G" using make_swaps_forest [OF m] f by simp
  show ?thesis
  proof (cases r1)
    case (Inl e)
    then show ?thesis using True cache m f1 by (simp add: tostring_def)
  next
    case (Inr sw)
    have "map fst sw = map fst c" using make_swaps_Inr m Inr by blast
    then have no: "old \<notin> set (kid_ids F0)" if "(old, n) \<in> set sw" for old n
      using olds [OF cache, of old] that by (metis fst_conv image_eqI set_map)
    obtain G' where g: "forest (snd (apply_swaps h1 sw)) = F0 @ G'"
      using apply_swaps_frame [OF f1, of sw] no by blast
    have "snd (tostring E h self) = snd (apply_swaps h1 sw)"
      using True cache m Inr
      by (cases "apply_swaps h1 sw") (auto simp: tostring_def split: option.splits)
    then show ?thesis using g by auto
  qed
qed

lemma deepcopy_found:
  "find_el h r = Some t
   \<Longrightarrow> deepcopy h r = Some (r + next_id h,
         \<lparr>forest = forest h @ [map_ids (\<lambda>i. i + next_id h) t], next_id = next_id h + next_id h\<rparr>)"
  by (simp add: deepcopy_def)

lemma walk_copy:
  assumes "find_el h' r' = Some (map_ids f t)"
  shows "walk E h' (SVG r') = (case collect E (nodes t) of Inl e \<Rightarrow> Inl e
           | Inr c \<Rightarrow> Inr (map (\<lambda>(i, d). (f i, d)) c,
                            \<lparr>svg_root = r', elements = Some (map (\<lambda>(i, d). (f i, d)) c)\<rparr>))"
  using assms by (simp add: walk_def SVG_def nodes_map_ids collect_map_ids split: sum.splits)

lemma inplace_on_copy:
  assumes f: "find_el h' r' = Some (map_ids f t)"
    and run: "shapes_to_paths_inplace E h' (SVG r') = (Inr x, svg)"
  shows "\<exists>c c'. collect E (nodes t) = Inr c \<and> svg = \<lparr>svg_root = r', elements = Some c'\<rparr>
          \<and> convert_all (as_path E) (map (\<lambda>(i, d). (f i, d)) c) = (None, c')"
proof -
  have se: "SVG_elements E h' (SVG r') = walk E h' (SVG r')"
    by (simp add: SVG_elements_unpopulated)
  obtain c where c: "collect E (nodes t) = Inr c"
    using run se walk_copy [OF f, of E]
    by (cases "collect E (nodes t)") (auto simp: shapes_to_paths_inplace_def)
  let ?c1 = "map (\<lambda>(i, d). (f i, d)) c"
  have w: "SVG_elements E h' (SVG r') = Inr (?c1, \<lparr>svg_root = r', elements = Some ?c1\<rparr>)"
    using se walk_copy [OF f, of E] c by simp
  obtain r c' where ca: "convert_all (as_path E) ?c1 = (r, c')"
    by (cases "convert_all (as_path E) ?c1")
  have "r = None" "svg = \<lparr>svg_root = r', elements = Some c'\<rparr>"
    using run w ca by (cases r; simp add: shapes_to_paths_inplace_def)+
  then show ?thesis using c ca by blast
qed

lemma converted_pairs:
  assumes col: "collect E es = Inr c"
    and conv: "convert_all ap (map (\<lambda>(i, d). (f i, d)) c) = (None, c')"
  shows "list_all2 (\<lambda>e (j, p). j = f (el_id e) \<and> (\<exists>d. el_to_data E e = Inr d \<and> ap d = Inr p))
           (filter (\<lambda>e. recognized E (el_tag e)) es) c'"
proof -
  have a: "list_all2 (\<lambda>e (i, d). i = el_id e \<and> el_to_data E e = Inr d)
             (filter (\<lambda>e. recognized E (el_tag e)) es) c"
    using collect_Inr [OF col] by (simp add: list_all2_conv_all_nth case_prod_unfold)
  have b: "list_all2 (\<lambda>(i, d) (j, p). j = f i \<and> ap d = Inr p) c c'"
    using convert_all_None [OF conv] by (simp add: list_all2_map1 case_prod_unfold)
  show ?thesis
    by (rule list_all2_trans [OF _ a b]) auto
qed

lemma clip_path_rule:
  assumes "wf_names (map fst (vals s))"
  shows "(\<not> writable (vals s) \<longrightarrow> fst (data_to_el E h s) = Inl TypeError
                                   \<or> fst (data_to_el E h s) = Inl ValueError)
       \<and> (writable (vals s) \<longrightarrow>
            (\<exists>new h'. data_to_el E h s = (Inr new, h')
               \<and> (\<forall>v. map_of (vals s) ''clip_path'' = Some v \<longrightarrow> \<not> truthy v
                      \<longrightarrow> ''clip-path'' \<notin> fst ` set (el_attrib new))
               \<and> (\<forall>v. map_of (vals s) ''clip_path'' = Some (PyStr v) \<longrightarrow> v \<noteq> []
                      \<longrightarrow> map_of (el_attrib new) ''clip-path'' = Some v)
               \<and> (\<forall>n v. n \<noteq> ''clip_path'' \<longrightarrow> (n, PyStr v) \<in> set (vals s)
                      \<longrightarrow> map_of (el_attrib new) n = Some v)))"
proof (intro conjI impI)
  assume "\<not> writable (vals s)"
  then show "fst (data_to_el E h s) = Inl TypeError \<or> fst (data_to_el E h s) = Inl ValueError"
    using data_to_el_cases [OF assms] by blast
next
  assume w: "writable (vals s)"
  let ?new = "El (next_id h) (qname (svgns E) (tag_name (cls s))) (written (vals s)) []"
  have d: "distinct (map (\<lambda>p. field_attr (fst p)) (vals s))" using wf_names_vals [OF assms] .
  have run: "data_to_el E h s = (Inr ?new, h\<lparr>next_id := Suc (next_id h)\<rparr>)"
    using data_to_el_cases [OF assms] w by blast
  have blank: "''clip-path'' \<notin> fst ` set (written (vals s))"
    if v: "map_of (vals s) ''clip_path'' = Some v" "\<not> truthy v" for v
  proof
    assume "''clip-path'' \<in> fst ` set (written (vals s))"
    then obtain n x where n: "(n, PyStr x) \<in> set (vals s)" "\<not> omitted n (PyStr x)"
      "''clip-path'' = field_attr n"
      using written_keys by blast
    have "py_identifier n" using wf_names_ident [OF assms n(1)] .
    then have "n = ''clip_path''"
      using n(3) not_ident_clip [of n] by (cases "n = ''clip_path''") (simp_all add: field_attr_other)
    then have "PyStr x = v" using wf_names_unique [OF assms v(1)] n(1) by simp
    then show False using n(2) v(2) \<open>n = ''clip_path''\<close> by (simp add: omitted_def)
  qed
  have kept: "map_of (written (vals s)) ''clip-path'' = Some v"
    if v: "map_of (vals s) ''clip_path'' = Some (PyStr v)" "v \<noteq> []" for v
  proof -
    have "(''clip_path'', PyStr v) \<in> set (vals s)" using v(1) by (rule map_of_SomeD)
    from written_lookup [OF d this] v(2) show ?thesis by (simp add: omitted_def)
  qed
  have other: "map_of (written (vals s)) n = Some v"
    if "n \<noteq> ''clip_path''" "(n, PyStr v) \<in> set (vals s)" for n v
    using written_lookup [OF d that(2)] that(1) by (simp add: omitted_def field_attr_other)
  show "\<exists>new h'. data_to_el E h s = (Inr new, h')
               \<and> (\<forall>v. map_of (vals s) ''clip_path'' = Some v \<longrightarrow> \<not> truthy v
                      \<longrightarrow> ''clip-path'' \<notin> fst ` set (el_attrib new))
               \<and> (\<forall>v. map_of (vals s) ''clip_path'' = Some (PyStr v) \<longrightarrow> v \<noteq> []
                      \<longrightarrow> map_of (el_attrib new) ''clip-path'' = Some v)
               \<and> (\<forall>n v. n \<noteq> ''clip_path'' \<longrightarrow> (n, PyStr v) \<in> set (vals s)
                      \<longrightarrow> map_of (el_attrib new) n = Some v)"
    using run blank kept other by (intro exI [of _ ?new] exI [of _ "h\<lparr>next_id := Suc (next_id h)\<rparr>"]) simp
qed

lemma clip_path_rule_example:
  "wf_names (map fst [(''clip_path'', PyStr []), (''fill'', PyStr []), (''d'', PyStr ''M0,0'')])
   \<and> (\<exists>new h'. data_to_el example_env small_heap
          \<lparr>cls = SVGPath, vals = [(''clip_path'', PyStr []), (''fill'', PyStr []), (''d'', PyStr ''M0,0'')]\<rparr>
          = (Inr new, h')
        \<and> ''clip-path'' \<notin> fst ` set (el_attrib new)
        \<and> map_of (el_attrib new) ''fill'' = Some [])"
proof -
  let ?s = "\<lparr>cls = SVGPath, vals = [(''clip_path'', PyStr []), (''fill'', PyStr []), (''d'', PyStr ''M0,0'')]\<rparr>"
  have n: "wf_names (map fst (vals ?s))" using ident_examples by (simp add: wf_names_def)
  have w: "writable (vals ?s)" by (simp add: writable_def omitted_def xml_char_def)
  from clip_path_rule [OF n, of example_env small_heap] w
  obtain new h' where r: "data_to_el example_env small_heap ?s = (Inr new, h')"
    and a: "\<forall>v. map_of (vals ?s) ''clip_path'' = Some v \<longrightarrow> \<not> truthy v
              \<longrightarrow> ''clip-path'' \<notin> fst ` set (el_attrib new)"
    and b: "\<forall>n v. n \<noteq> ''clip_path'' \<longrightarrow> (n, PyStr v) \<in> set (vals ?s)
              \<longrightarrow> map_of (el_attrib new) n = Some v"
    by blast
  have "''clip-path'' \<notin> fst ` set (el_attrib new)" using a by simp
  moreover have "map_of (el_attrib new) ''fill'' = Some []"
    using b [rule_format, of "''fill''" "[]"] by simp
  ultimately show ?thesis using n r by auto
qed

lemma tostring_replaces_nodes:
  assumes "wf_heap h" and "k < length (forest h)" and "el_id (forest h ! k) = svg_root self"
  shows "(\<not> populated self \<longrightarrow> tostring E h self = (Inr (snapshot (forest h ! k)), h))
       \<and> (elements self = Some c \<and> distinct (map fst c)
            \<and> (\<forall>old \<in> set (map fst c). getparent h old \<noteq> None)
            \<and> encode_all E c = Inr xs
          \<longrightarrow> fst (tostring E h self) = Inr (render (map_of xs) (forest h ! k)))
       \<and> (\<not> recognized E (el_tag (forest h ! k)) \<and> \<not> populated self
            \<and> SVG_elements E h self = Inr (c, self1)
          \<longrightarrow> elements self1 = Some c \<and> svg_root self1 = svg_root self
              \<and> distinct (map fst c) \<and> (\<forall>old \<in> set (map fst c). getparent h old \<noteq> None))"
proof (intro conjI impI)
  have dist: "distinct (ids (forest h))" using assms(1) by (simp add: wf_heap_def)
  have f: "find_el h (svg_root self) = Some (forest h ! k)"
    using find_el_root [OF dist assms(2)] assms(3) by simp
  {
    assume "\<not> populated self"
    then show "tostring E h self = (Inr (snapshot (forest h ! k)), h)"
      using tostring_unpopulated [of self E h] f by (simp add: etree_tostring_def)
  next
    assume a: "elements self = Some c \<and> distinct (map fst c)
            \<and> (\<forall>old \<in> set (map fst c). getparent h old \<noteq> None) \<and> encode_all E c = Inr xs"
    then have "set (map fst c) \<subseteq> set (kid_ids (forest h))"
      using getparent_None_iff [of h] by blast
    then show "fst (tostring E h self) = Inr (render (map_of xs) (forest h ! k))"
      using tostring_render [OF assms] a by blast
  next
    assume a: "\<not> recognized E (el_tag (forest h ! k)) \<and> \<not> populated self
            \<and> SVG_elements E h self = Inr (c, self1)"
    then have np: "\<not> populated self" and se: "SVG_elements E h self = Inr (c, self1)"
      by simp_all
    have w: "walk E h self = Inr (c, self1)"
      using SVG_elements_unpopulated [OF np, of E h] se by simp
    then have col: "collect E (nodes (forest h ! k)) = Inr c"
      and s1: "self1 = self\<lparr>elements := Some c\<rparr>"
      using f by (auto simp: walk_def split: sum.splits)
    have t: "forest h ! k \<in> set (forest h)" using assms(2) by simp
    from walk_cache_ok [OF dist t _ col] a
    have "distinct (map fst c)" "set (map fst c) \<subseteq> set (kid_ids (forest h))" by blast+
    then show "elements self1 = Some c" "svg_root self1 = svg_root self" "distinct (map fst c)"
      "\<forall>old \<in> set (map fst c). getparent h old \<noteq> None"
      using s1 getparent_None_iff [of h] by auto
  }
qed

lemma tostring_replaces_nodes_example:
  "wf_heap small_heap \<and> 0 < length (forest small_heap)
   \<and> el_id (forest small_heap ! 0) = svg_root small_cached
   \<and> \<not> populated (SVG 0)
   \<and> tostring example_env small_heap (SVG 0) = (Inr (snapshot small_tree), small_heap)
   \<and> \<not> recognized example_env (el_tag (forest small_heap ! 0))
   \<and> SVG_elements example_env small_heap (SVG 0) = Inr ([(1, small_shape)], small_cached)
   \<and> elements small_cached = Some [(1, small_shape)] \<and> distinct (map fst [(1 :: nat, small_shape)])
   \<and> getparent small_heap 1 \<noteq> None
   \<and> fst (tostring example_env small_heap small_cached)
       = Inr (Xml ''svg'' []
                [Xml ''{http://www.w3.org/2000/svg}path''
                   [(''opacity'', []), (''fill'', ''red''), (''stroke'', []), (''d'', ''M0,0'')] [],
                 Xml ''g'' [] []])"
proof -
  have 2: "0 < length (forest small_heap)" by (simp add: small_heap_def)
  have 3: "el_id (forest small_heap ! 0) = svg_root small_cached"
    by (simp add: small_heap_def small_tree_def small_cached_def)
  have r0: "el_id (forest small_heap ! 0) = svg_root (SVG 0)"
    by (simp add: small_heap_def small_tree_def SVG_def)
  have 4: "elements small_cached = Some [(1, small_shape)]" by (simp add: small_cached_def)
  have 5: "\<forall>old \<in> set (map fst [(1 :: nat, small_shape)]). getparent small_heap old \<noteq> None"
    by (simp add: getparent_def small_heap_def small_tree_def all_nodes_def)
  have 6: "\<not> recognized example_env (el_tag (forest small_heap ! 0))"
    using example_recognized by (simp add: small_heap_def small_tree_def)
  let ?xs = "[(1 :: nat, Xml ''{http://www.w3.org/2000/svg}path''
                 [(''opacity'', []), (''fill'', ''red''), (''stroke'', []), (''d'', ''M0,0'')] [])]"
  from tostring_replaces_nodes [OF wf_small 2 3, of example_env "[(1, small_shape)]" ?xs]
    4 5 small_encode_all
  have "fst (tostring example_env small_heap small_cached) = Inr (render (map_of ?xs) (forest small_heap ! 0))"
    by simp
  then have a: "fst (tostring example_env small_heap small_cached)
       = Inr (Xml ''svg'' []
                [Xml ''{http://www.w3.org/2000/svg}path''
                   [(''opacity'', []), (''fill'', ''red''), (''stroke'', []), (''d'', ''M0,0'')] [],
                 Xml ''g'' [] []])"
    by (simp add: small_heap_def small_tree_def)
  from tostring_replaces_nodes [OF wf_small 2 r0, of example_env]
  have b: "tostring example_env small_heap (SVG 0) = (Inr (snapshot small_tree), small_heap)"
    by (simp add: small_heap_def)
  have 7: "getparent small_heap 1 \<noteq> None" using 5 by simp
  show ?thesis using wf_small 2 3 4 6 7 a b small_elements by simp
qed


lemma kid_ids_before_step:
  assumes "mset (ids (F' @ [d])) = add_mset j (mset (ids F))"
    "map el_id F' = map el_id F" "el_id d = old" "o' \<in> set (kid_ids (F' @ [d]))" "o' \<noteq> j"
  shows "o' \<in> set (kid_ids F)"
proof -
  have "mset (map el_id (F' @ [d])) + mset (kid_ids (F' @ [d]))
        = add_mset j (mset (map el_id F) + mset (kid_ids F))"
    using assms(1) by (simp only: mset_ids_forest)
  then have "add_mset old (mset (kid_ids (F' @ [d]))) = add_mset j (mset (kid_ids F))"
    using assms(2,3) by simp
  moreover have "o' \<in># add_mset old (mset (kid_ids (F' @ [d])))" using assms(4) by simp
  ultimately have "o' \<in># add_mset j (mset (kid_ids F))" by simp
  then show ?thesis using assms(5) by simp
qed

lemma apply_swaps_fails:
  "distinct (ids (forest h)) \<Longrightarrow> news_ok (forest h) sw
   \<Longrightarrow> set (map fst sw) \<subseteq> set (ids (forest h))
   \<Longrightarrow> \<not> (distinct (map fst sw) \<and> set (map fst sw) \<subseteq> set (kid_ids (forest h)))
   \<Longrightarrow> fst (apply_swaps h sw) = Some AttributeError"
proof (induction sw arbitrary: h)
  case Nil
  then show ?case by simp
next
  case (Cons a sw)
  obtain old n where a: "a = (old, n)" by (cases a)
  let ?F = "forest h"
  show ?case
  proof (cases "getparent h old")
    case None
    then show ?thesis using a by simp
  next
    case (Some p)
    have inkids: "old \<in> set (kid_ids ?F)" using Some getparent_None_iff [of h old] by auto
    have leaf: "el_kids n = []" and fresh: "el_id n \<notin> set (ids ?F)"
      using Cons.prems(2) a by (auto simp: news_ok_def)
    from replace_step [OF Cons.prems(1) Some leaf fresh]
    obtain d where d: "el_id d = old"
      and rep: "el_replace h p old n = Inr (h\<lparr>forest := repl_list False p old n ?F @ [d]\<rparr>)"
      and ms: "mset (ids (repl_list False p old n ?F @ [d])) = add_mset (el_id n) (mset (ids ?F))"
      by blast
    let ?h1 = "h\<lparr>forest := repl_list False p old n ?F @ [d]\<rparr>"
    have 1: "distinct (ids (forest ?h1))"
      using distinct_after_step [OF Cons.prems(1) fresh ms] by simp
    have 2: "news_ok (forest ?h1) sw"
      using news_ok_step(1) [OF Cons.prems(2) [unfolded a] ms] by simp
    have "mset (ids (forest ?h1)) = mset (el_id n # ids ?F)" using ms by simp
    from mset_eq_setD [OF this]
    have ids1: "set (ids (forest ?h1)) = insert (el_id n) (set (ids ?F))" by simp
    have 3: "set (map fst sw) \<subseteq> set (ids (forest ?h1))" using Cons.prems(3) ids1 by auto
    have 4: "\<not> (distinct (map fst sw) \<and> set (map fst sw) \<subseteq> set (kid_ids (forest ?h1)))"
    proof
      assume g: "distinct (map fst sw) \<and> set (map fst sw) \<subseteq> set (kid_ids (forest ?h1))"
      have root: "old \<in> set (map el_id (forest ?h1))" using d by simp
      have "old \<notin> set (kid_ids (forest ?h1))"
        using root_parentless [OF 1 root] getparent_None_iff [of ?h1 old] by simp
      then have notin: "old \<notin> set (map fst sw)" using g by auto
      have "o' \<in> set (kid_ids ?F)" if o': "o' \<in> set (map fst sw)" for o'
      proof -
        have "o' \<in> set (ids ?F)" using Cons.prems(3) o' by auto
        then have "o' \<noteq> el_id n" using fresh by auto
        moreover have "o' \<in> set (kid_ids (repl_list False p old n ?F @ [d]))" using g o' by auto
        ultimately show ?thesis using kid_ids_before_step [OF ms _ d, of o'] by simp
      qed
      then have "distinct (map fst (a # sw)) \<and> set (map fst (a # sw)) \<subseteq> set (kid_ids ?F)"
        using g notin inkids a by auto
      then show False using Cons.prems(4) by simp
    qed
    from Cons.IH [OF 1 2 3 4] show ?thesis using Some rep a by simp
  qed
qed

lemma tostring_output:
  assumes wf: "wf_heap h" and k: "k < length (forest h)"
    and root: "el_id (forest h ! k) = svg_root self"
    and handles: "\<And>c. elements self = Some c \<Longrightarrow> set (map fst c) \<subseteq> set (ids (forest h))"
  shows "fst (tostring E h self)
         = tostring_out E (forest h ! k) (set (kid_ids (forest h))) (elements self)"
proof (cases "populated self")
  case False
  have dist: "distinct (ids (forest h))" using wf by (simp add: wf_heap_def)
  have "etree_tostring h (svg_root self) = Inr (snapshot (forest h ! k))"
    using find_el_root [OF dist k] root by (simp add: etree_tostring_def)
  then show ?thesis
    using False tostring_unpopulated [OF False, of E h]
    by (auto simp: tostring_out_def populated_def split: option.splits)
next
  case True
  then obtain c where cache: "elements self = Some c" and ne: "c \<noteq> []"
    by (auto simp: populated_def split: option.splits)
  obtain r1 h1 where m: "make_swaps E h c = (r1, h1)" by (cases "make_swaps E h c")
  have f1: "forest h1 = forest h" using make_swaps_forest [OF m] .
  show ?thesis
  proof (cases r1)
    case (Inl e)
    then have "encode_all E c = Inl e" using make_swaps_encode_all [of E h c] m by simp
    moreover have "fst (tostring E h self) = Inl e"
      using True cache m Inl by (simp add: tostring_def)
    ultimately show ?thesis using cache ne by (simp add: tostring_out_def)
  next
    case (Inr sw)
    have enc: "encode_all E c = Inr (map (\<lambda>(old, n). (old, snapshot n)) sw)"
      using make_swaps_encode_all [of E h c] m Inr by simp
    have olds: "map fst sw = map fst c" using make_swaps_Inr m Inr by blast
    have news: "news_ok (forest h1) sw" using make_swaps_news_ok [OF wf] m Inr by simp
    have dist: "distinct (ids (forest h1))" using wf f1 by (simp add: wf_heap_def)
    show ?thesis
    proof (cases "distinct (map fst c) \<and> set (map fst c) \<subseteq> set (kid_ids (forest h))")
      case True
      then have "fst (tostring E h self)
                 = Inr (render (map_of (map (\<lambda>(old, n). (old, snapshot n)) sw)) (forest h ! k))"
        using tostring_render [OF wf k root cache _ _ enc] by blast
      then show ?thesis using True cache ne enc by (simp add: tostring_out_def)
    next
      case False
      have "set (map fst sw) \<subseteq> set (ids (forest h1))" using handles [OF cache] olds f1 by simp
      moreover have "\<not> (distinct (map fst sw) \<and> set (map fst sw) \<subseteq> set (kid_ids (forest h1)))"
        using False olds f1 by simp
      ultimately have "fst (apply_swaps h1 sw) = Some AttributeError"
        using apply_swaps_fails [OF dist news] by blast
      then have "fst (tostring E h self) = Inl AttributeError"
        using \<open>populated self\<close> cache m Inr
        by (cases "apply_swaps h1 sw") (simp add: tostring_def)
      then show ?thesis using False cache ne enc by (simp add: tostring_out_def)
    qed
  qed
qed

lemma convert_all_total:
  "(\<And>i d. (i, d) \<in> set c \<Longrightarrow> \<exists>p. ap d = Inr p) \<Longrightarrow> fst (convert_all ap c) = None"
proof (induction c)
  case Nil
  then show ?case by simp
next
  case (Cons a c)
  obtain i d where a: "a = (i, d)" by (cases a)
  obtain p where p: "ap d = Inr p" using Cons.prems [of i d] a by auto
  have "fst (convert_all ap c) = None"
  proof (rule Cons.IH)
    fix j e assume "(j, e) \<in> set c"
    then show "\<exists>p. ap e = Inr p" using Cons.prems [of j e] by simp
  qed
  then show ?case using a p by (cases "convert_all ap c") simp
qed

lemma inplace_returns_iff:
  assumes f: "find_el h' r' = Some (map_ids f t)"
  shows "(\<exists>x. fst (shapes_to_paths_inplace E h' (SVG r')) = Inr x)
         \<longleftrightarrow> (\<forall>e \<in> set (nodes t). recognized E (el_tag e)
               \<longrightarrow> (\<exists>d p. el_to_data E e = Inr d \<and> as_path E d = Inr p))"
proof
  assume "\<exists>x. fst (shapes_to_paths_inplace E h' (SVG r')) = Inr x"
  then obtain x svg where run: "shapes_to_paths_inplace E h' (SVG r') = (Inr x, svg)"
    by (cases "shapes_to_paths_inplace E h' (SVG r')") auto
  from inplace_on_copy [OF f run]
  obtain c c' where c: "collect E (nodes t) = Inr c"
    and conv: "convert_all (as_path E) (map (\<lambda>(i, d). (f i, d)) c) = (None, c')"
    by blast
  have l: "list_all2 (\<lambda>e (j, p). j = f (el_id e) \<and> (\<exists>d. el_to_data E e = Inr d \<and> as_path E d = Inr p))
           (filter (\<lambda>e. recognized E (el_tag e)) (nodes t)) c'"
    using converted_pairs [OF c conv] .
  show "\<forall>e \<in> set (nodes t). recognized E (el_tag e)
               \<longrightarrow> (\<exists>d p. el_to_data E e = Inr d \<and> as_path E d = Inr p)"
  proof (intro ballI impI)
    fix e assume "e \<in> set (nodes t)" "recognized E (el_tag e)"
    then have "e \<in> set (filter (\<lambda>e. recognized E (el_tag e)) (nodes t))" by simp
    then obtain i where i: "i < length (filter (\<lambda>e. recognized E (el_tag e)) (nodes t))"
      "filter (\<lambda>e. recognized E (el_tag e)) (nodes t) ! i = e"
      by (metis in_set_conv_nth)
    from list_all2_nthD [OF l i(1)] i(2) show "\<exists>d p. el_to_data E e = Inr d \<and> as_path E d = Inr p"
      by (auto simp: case_prod_unfold)
  qed
next
  assume a: "\<forall>e \<in> set (nodes t). recognized E (el_tag e)
               \<longrightarrow> (\<exists>d p. el_to_data E e = Inr d \<and> as_path E d = Inr p)"
  then obtain c where c: "collect E (nodes t) = Inr c"
    using collect_total [of "nodes t" E] by blast
  let ?c1 = "map (\<lambda>(i, d). (f i, d)) c"
  have "\<exists>p. as_path E d = Inr p" if m: "(i, d) \<in> set ?c1" for i d
  proof -
    obtain j where j: "(j, d) \<in> set c" using m by auto
    then obtain n where n: "n < length c" "c ! n = (j, d)" by (auto simp: in_set_conv_nth)
    have l: "list_all2 (\<lambda>(i, d) e. i = el_id e \<and> el_to_data E e = Inr d) c
         (filter (\<lambda>e. recognized E (el_tag e)) (nodes t))"
      using collect_Inr [OF c] .
    let ?e = "filter (\<lambda>e. recognized E (el_tag e)) (nodes t) ! n"
    have e: "el_to_data E ?e = Inr d" using list_all2_nthD [OF l n(1)] n(2) by simp
    have "n < length (filter (\<lambda>e. recognized E (el_tag e)) (nodes t))"
      using list_all2_lengthD [OF l] n(1) by simp
    then have "?e \<in> set (filter (\<lambda>e. recognized E (el_tag e)) (nodes t))" by (rule nth_mem)
    then have "?e \<in> set (nodes t)" "recognized E (el_tag ?e)" by simp_all
    then show ?thesis using a e by fastforce
  qed
  then have conv: "fst (convert_all (as_path E) ?c1) = None"
    using convert_all_total [of ?c1 "as_path E"] by blast
  have se: "SVG_elements E h' (SVG r') = Inr (?c1, \<lparr>svg_root = r', elements = Some ?c1\<rparr>)"
    using walk_copy [OF f, of E] c by (simp add: SVG_elements_unpopulated)
  show "\<exists>x. fst (shapes_to_paths_inplace E h' (SVG r')) = Inr x"
    using se conv by (cases "convert_all (as_path E) ?c1") (simp add: shapes_to_paths_inplace_def)
qed

lemma tostring_out_cong:
  "(\<And>c. cache = Some c \<Longrightarrow> (set (map fst c) \<subseteq> K \<longleftrightarrow> set (map fst c) \<subseteq> K'))
   \<Longrightarrow> tostring_out E t K cache = tostring_out E t K' cache"
  by (cases cache) (simp_all add: tostring_out_def split: sum.splits)

lemma small_copy:
  "shapes_to_paths example_env small_heap (SVG 0) False
   = (Inr \<lparr>svg_root = 3, elements = Some [(4, small_shape)]\<rparr>, SVG 0,
      \<lparr>forest = [small_tree, map_ids (\<lambda>i. i + 3) small_tree], next_id = 6\<rparr>)"
proof -
  let ?h1 = "\<lparr>forest = [small_tree, map_ids (\<lambda>i. i + 3) small_tree], next_id = 6\<rparr>"
  let ?x = "\<lparr>svg_root = 3, elements = Some [(4, small_shape)]\<rparr>"
  have col: "collect example_env (nodes small_tree) = Inr [(1, small_shape)]"
    using example_recognized small_path_decodes by (simp add: small_tree_def small_shape_def)
  have fcp: "find_el ?h1 3 = Some (map_ids (\<lambda>i. i + 3) small_tree)"
    by (simp add: find_el_def small_tree_def)
  have w: "walk example_env ?h1 (SVG 3) = Inr ([(4, small_shape)], ?x)"
    using walk_copy [OF fcp, of example_env] col by simp
  have ap: "as_path example_env small_shape = Inr small_shape"
    by (simp add: example_env_def spec_as_path_def small_shape_def)
  have ip: "shapes_to_paths_inplace example_env ?h1 (SVG 3) = (Inr ?x, ?x)"
    using w ap by (simp add: shapes_to_paths_inplace_def SVG_elements_unpopulated)
  have "deepcopy small_heap 0 = Some (3, ?h1)"
    using deepcopy_found [OF small_find] by (simp add: small_heap_def)
  then show ?thesis using ip by (simp add: shapes_to_paths_def SVG_def)
qed















section \<open>The claims\<close>

text \<open>
  C5. Decoding an element whose tag is not one of the seven shape tags (bare or in the
  SVG namespace) raises ValueError and returns no shape, whereas \<^verbatim>\<open>shapes()\<close> walks
  over such elements without an error: what it returns are the decoded shapes of exactly
  the recognized elements, in document order, and it returns whenever those decode.
\<close>

theorem unrecognized_raises_iteration_skips:
  assumes "\<not> populated self" and "find_el h (svg_root self) = Some t"
  shows "(\<forall>el. \<not> recognized E (el_tag el) \<longrightarrow> el_to_data E el = Inl ValueError)
       \<and> (\<forall>tg. recognized E tg \<longleftrightarrow>
             (\<exists>k \<in> set [''circle'', ''ellipse'', ''line'', ''path'', ''polygon'', ''polyline'',
                         ''rect'']. tg = k \<or> tg = qname (svgns E) k))
       \<and> (\<forall>ss self'. shapes E h self = Inr (ss, self') \<longrightarrow>
             list_all2 (\<lambda>d e. el_to_data E e = Inr d) ss
               (filter (\<lambda>e. recognized E (el_tag e)) (nodes t)))
       \<and> ((\<forall>e \<in> set (nodes t). recognized E (el_tag e) \<longrightarrow> (\<exists>d. el_to_data E e = Inr d))
            \<longrightarrow> (\<exists>ss self'. shapes E h self = Inr (ss, self')))"
proof (intro conjI allI impI)
  fix el assume "\<not> recognized E (el_tag el)"
  then show "el_to_data E el = Inl ValueError" by (rule el_to_data_unrecognized)
next
  fix tg
  show "recognized E tg \<longleftrightarrow>
          (\<exists>k \<in> set [''circle'', ''ellipse'', ''line'', ''path'', ''polygon'', ''polyline'',
                      ''rect'']. tg = k \<or> tg = qname (svgns E) k)"
  proof -
    have names: "map fst base_classes = [''circle'', ''ellipse'', ''line'', ''path'', ''polygon'',
                                         ''polyline'', ''rect'']"
      by (simp add: base_classes_def)
    have "(tg \<in> set L \<or> tg \<in> f ` set L) \<longleftrightarrow> (\<exists>k \<in> set L. tg = k \<or> tg = f k)"
      for L :: "string list" and f by auto
    then show ?thesis unfolding recognized_iff names .
  qed
next
  fix ss self' assume "shapes E h self = Inr (ss, self')"
  then obtain c where "collect E (nodes t) = Inr c" "ss = map snd c"
    using shapes_unpopulated [OF assms] by (auto split: sum.splits)
  then show "list_all2 (\<lambda>d e. el_to_data E e = Inr d) ss
               (filter (\<lambda>e. recognized E (el_tag e)) (nodes t))"
    using collect_shapes by simp
next
  assume "\<forall>e \<in> set (nodes t). recognized E (el_tag e) \<longrightarrow> (\<exists>d. el_to_data E e = Inr d)"
  then obtain c where "collect E (nodes t) = Inr c" using collect_total [of "nodes t" E] by blast
  then show "\<exists>ss self'. shapes E h self = Inr (ss, self')"
    using shapes_unpopulated [OF assms] by simp
qed

theorem unrecognized_raises_iteration_skips_witness:
  "\<not> populated (SVG 0) \<and> find_el small_heap 0 = Some small_tree
   \<and> el_to_data example_env small_tree = Inl ValueError
   \<and> (\<exists>ss self'. shapes example_env small_heap (SVG 0) = Inr (ss, self'))"
proof -
  have h: "find_el small_heap (svg_root (SVG 0)) = Some small_tree"
    using small_find by (simp add: SVG_def)
  note T = unrecognized_raises_iteration_skips [OF not_populated_SVG h, of example_env]
  have "\<not> recognized example_env (el_tag small_tree)"
    using example_recognized by (simp add: small_tree_def)
  then have 1: "el_to_data example_env small_tree = Inl ValueError" using T by blast
  have "\<forall>e \<in> set (nodes small_tree). recognized example_env (el_tag e)
          \<longrightarrow> (\<exists>d. el_to_data example_env e = Inr d)"
    using example_recognized small_path_decodes by (simp add: small_tree_def)
  then have 2: "\<exists>ss self'. shapes example_env small_heap (SVG 0) = Inr (ss, self')"
    using T by blast
  show ?thesis using 1 2 small_find by simp
qed

text \<open>
  C6. \<^verbatim>\<open>_data_to_el\<close> assigns each field value to \<^verbatim>\<open>el.attrib\<close> as it is, with no
  conversion to a string, where \<^verbatim>\<open>_el_to_data\<close> converts every attribute with the
  type of its field. A circle read from \<^verbatim>\<open><circle r="2" clip-path="url(#c)"/>\<close> has
  the clip path \<^verbatim>\<open>url(#c)\<close> and numbers for its geometry; encoding it raises
  TypeError at the first number, in every environment and heap, so that no element and
  no \<^verbatim>\<open>clip-path\<close> attribute is emitted.
\<close>

theorem clip_path_lost_with_numeric_field:
  "el_to_data example_env (El 1 ''circle'' [(''r'', ''2''), (''clip-path'', ''url(#c)'')] [])
     = Inr circle_shape
   \<and> map_of (vals circle_shape) ''clip_path'' = Some (PyStr ''url(#c)'')
   \<and> data_to_el E h circle_shape = (Inl TypeError, h\<lparr>next_id := Suc (next_id h)\<rparr>)"
proof -
  have "example_float ''2'' = Some 2" by (simp add: example_float_def)
  then have "el_to_data example_env (El 1 ''circle'' [(''r'', ''2''), (''clip-path'', ''url(#c)'')] [])
     = Inr circle_shape"
    by (simp add: el_to_data_def ELEMENT_CLASSES_def base_classes_def qname_def example_env_def
      spec_fields_def spec_common_def str_field_def num_field_def field_attr_def FIELD_RENAMES_def
      ATTR_RENAMES_def convert_def circle_shape_def)
  moreover have "write_fields (vals circle_shape) [] = Inl TypeError"
    by (simp add: circle_shape_def xml_char_def field_attr_def FIELD_RENAMES_def ATTR_RENAMES_def)
  then have "data_to_el E h circle_shape = (Inl TypeError, h\<lparr>next_id := Suc (next_id h)\<rparr>)"
    by (simp add: data_to_el_def class_tag etree_Element_def)
  ultimately show ?thesis by (simp add: circle_shape_def)
qed

text \<open>
  C7. The rename table has the single entry \<^verbatim>\<open>clip-path\<close> to \<^verbatim>\<open>clip_path\<close>, and
  both directions go through it: \<^verbatim>\<open>_el_to_data\<close> reads the field \<open>f\<close> from the
  attribute \<open>field_attr f\<close> (its default when the attribute is absent), and
  \<^verbatim>\<open>_data_to_el\<close> writes the field \<open>n\<close> to the attribute \<open>field_attr n\<close> and writes
  no other attribute; \<open>field_attr\<close> changes no name but \<^verbatim>\<open>clip_path\<close>.
\<close>

theorem rename_table_symmetric:
  assumes "wf_names (map fname (fields_of E (cls s)))" and "wf_names (map fst (vals p))"
  shows "ATTR_RENAMES = [(''clip-path'', ''clip_path'')]
       \<and> FIELD_RENAMES = [(''clip_path'', ''clip-path'')]
       \<and> (\<forall>n. field_attr n = (if n = ''clip_path'' then ''clip-path'' else n))
       \<and> (el_to_data E el = Inr s \<longrightarrow>
            (\<forall>f \<in> set (fields_of E (cls s)).
               case map_of (el_attrib el) (field_attr (fname f)) of
                 None \<Rightarrow> map_of (vals s) (fname f) = fdefault f
               | Some a \<Rightarrow> \<exists>v. convert E (ftype f) a = Inr v
                                \<and> map_of (vals s) (fname f) = Some v))
       \<and> (\<forall>new h'. data_to_el E h p = (Inr new, h') \<longrightarrow>
            fst ` set (el_attrib new) \<subseteq> field_attr ` fst ` set (vals p)
            \<and> (\<forall>n v. (n, PyStr v) \<in> set (vals p) \<longrightarrow> \<not> omitted n (PyStr v)
                   \<longrightarrow> map_of (el_attrib new) (field_attr n) = Some v))"
proof (intro conjI allI impI ballI)
  show "ATTR_RENAMES = [(''clip-path'', ''clip_path'')]" by (simp add: ATTR_RENAMES_def)
  show "FIELD_RENAMES = [(''clip_path'', ''clip-path'')]"
    by (simp add: FIELD_RENAMES_def ATTR_RENAMES_def)
  show "field_attr n = (if n = ''clip_path'' then ''clip-path'' else n)" for n
    by (simp add: field_attr_other)
next
  fix f assume "el_to_data E el = Inr s" "f \<in> set (fields_of E (cls s))"
  then show "case map_of (el_attrib el) (field_attr (fname f)) of
               None \<Rightarrow> map_of (vals s) (fname f) = fdefault f
             | Some a \<Rightarrow> \<exists>v. convert E (ftype f) a = Inr v \<and> map_of (vals s) (fname f) = Some v"
    using el_to_data_Inr(3) assms(1) by (simp add: wf_names_def)
next
  fix new h' assume run: "data_to_el E h p = (Inr new, h')"
  have "writable (vals p)"
    using data_to_el_cases [OF assms(2), of E h] run by (cases "writable (vals p)") auto
  then have new: "el_attrib new = written (vals p)"
    using data_to_el_cases [OF assms(2), of E h] run by auto
  show "fst ` set (el_attrib new) \<subseteq> field_attr ` fst ` set (vals p)"
    unfolding new by (rule fst_written)
  fix n v assume "(n, PyStr v) \<in> set (vals p)" "\<not> omitted n (PyStr v)"
  then show "map_of (el_attrib new) (field_attr n) = Some v"
    unfolding new using written_lookup [OF wf_names_vals [OF assms(2)]] by simp
qed

theorem rename_table_symmetric_witness:
  "wf_names (map fname (fields_of example_env SVGPath))
   \<and> wf_names (map fst [(''clip_path'', PyStr ''url(#c)''), (''d'', PyStr ''M1,1'')])
   \<and> (\<exists>s. el_to_data example_env (El 1 ''path'' [(''d'', ''M1,1''), (''clip-path'', ''url(#c)'')] [])
             = Inr s
          \<and> map_of (vals s) ''clip_path'' = Some (PyStr ''url(#c)'')
          \<and> map_of (vals s) ''d'' = Some (PyStr ''M1,1''))
   \<and> (\<exists>new h'. data_to_el example_env small_heap
                   \<lparr>cls = SVGPath, vals = [(''clip_path'', PyStr ''url(#c)''), (''d'', PyStr ''M1,1'')]\<rparr>
                 = (Inr new, h')
          \<and> map_of (el_attrib new) ''clip-path'' = Some ''url(#c)''
          \<and> map_of (el_attrib new) ''d'' = Some ''M1,1'')"
proof -
  let ?el = "El 1 ''path'' [(''d'', ''M1,1''), (''clip-path'', ''url(#c)'')] []"
  let ?p = "\<lparr>cls = SVGPath, vals = [(''clip_path'', PyStr ''url(#c)''), (''d'', PyStr ''M1,1'')]\<rparr>"
  obtain s where s: "el_to_data example_env ?el = Inr s" and c: "cls s = SVGPath"
    using clipped_path_decodes by simp
  have 1: "wf_names (map fname (fields_of example_env (cls s)))"
    using wf_names_example by (simp add: c example_path_fields)
  have 2: "wf_names (map fst (vals ?p))" using ident_examples by (simp add: wf_names_def)
  note T = rename_table_symmetric [OF 1 2, of ?el small_heap]
  have fs: "str_field ''clip_path'' \<in> set (fields_of example_env (cls s))"
    "str_field ''d'' \<in> set (fields_of example_env (cls s))"
    by (simp_all add: c example_env_def spec_fields_def spec_common_def)
  have rd: "case map_of (el_attrib ?el) (field_attr (fname f)) of
              None \<Rightarrow> map_of (vals s) (fname f) = fdefault f
            | Some a \<Rightarrow> \<exists>v. convert example_env (ftype f) a = Inr v
                             \<and> map_of (vals s) (fname f) = Some v"
    if "f \<in> set (fields_of example_env (cls s))" for f
    using T s that by blast
  have a: "map_of (vals s) ''clip_path'' = Some (PyStr ''url(#c)'')"
    using rd [OF fs(1)] by (simp add: str_field_def convert_def)
  have b: "map_of (vals s) ''d'' = Some (PyStr ''M1,1'')"
    using rd [OF fs(2)] by (simp add: str_field_def convert_def field_attr_other)
  have w: "writable (vals ?p)" by (simp add: writable_def omitted_def xml_char_def)
  obtain new h' where run: "data_to_el example_env small_heap ?p = (Inr new, h')"
    using data_to_el_cases [OF 2, of example_env small_heap] w by blast
  have wr: "map_of (el_attrib new) (field_attr n) = Some v"
    if "(n, PyStr v) \<in> set (vals ?p)" "\<not> omitted n (PyStr v)" for n v
    using T run that by blast
  have c1: "map_of (el_attrib new) ''clip-path'' = Some ''url(#c)''"
    using wr [of "''clip_path''" "''url(#c)''"] by (simp add: omitted_def)
  have c2: "map_of (el_attrib new) ''d'' = Some ''M1,1''"
    using wr [of "''d''" "''M1,1''"] by (simp add: omitted_def field_attr_other)
  show ?thesis using 1 2 s a b run c1 c2 c by auto
qed

text \<open>
  C10. In a document without a recognized shape element \<^verbatim>\<open>_elements\<close> caches the empty
  list, which \<^verbatim>\<open>if self.elements:\<close> takes for no cache at all: the object is not
  populated afterwards, every later call of \<^verbatim>\<open>_elements\<close> (so of \<^verbatim>\<open>shapes()\<close>)
  walks the tree again, in whatever state the tree then is, and \<^verbatim>\<open>tostring()\<close>
  serializes the tree as it is, also after \<^verbatim>\<open>shapes_to_paths(inplace=True)\<close>.
\<close>

theorem empty_cache_is_unpopulated:
  assumes "find_el h (svg_root self) = Some t"
    and "\<forall>e \<in> set (nodes t). \<not> recognized E (el_tag e)"
    and "\<not> populated self"
  shows "shapes E h self = Inr ([], self\<lparr>elements := Some []\<rparr>)
       \<and> \<not> populated (self\<lparr>elements := Some []\<rparr>)
       \<and> (\<forall>h'. SVG_elements E h' (self\<lparr>elements := Some []\<rparr>)
                 = walk E h' (self\<lparr>elements := Some []\<rparr>))
       \<and> shapes E h (self\<lparr>elements := Some []\<rparr>) = Inr ([], self\<lparr>elements := Some []\<rparr>)
       \<and> shapes_to_paths E h self True
           = (Inr (self\<lparr>elements := Some []\<rparr>), self\<lparr>elements := Some []\<rparr>, h)
       \<and> tostring E h (self\<lparr>elements := Some []\<rparr>) = (Inr (snapshot t), h)"
proof -
  let ?s = "self\<lparr>elements := Some []\<rparr>"
  have c: "collect E (nodes t) = Inr []" using assms(2) by (intro collect_none) simp
  have w: "walk E h self = Inr ([], ?s)" using assms(1) c by (simp add: walk_def)
  have w': "walk E h ?s = Inr ([], ?s)" using assms(1) c by (simp add: walk_def)
  have np: "\<not> populated ?s" by (simp add: populated_def)
  have e: "SVG_elements E h self = Inr ([], ?s)"
    using SVG_elements_unpopulated [OF assms(3)] w by simp
  have e': "SVG_elements E h' ?s = walk E h' ?s" for h'
    using SVG_elements_unpopulated [OF np] .
  have 1: "shapes E h self = Inr ([], ?s)" using e by (simp add: shapes_def)
  have 4: "shapes E h ?s = Inr ([], ?s)" using e' [of h] w' by (simp add: shapes_def)
  have 5: "shapes_to_paths E h self True = (Inr ?s, ?s, h)"
    using e by (simp add: shapes_to_paths_def shapes_to_paths_inplace_def)
  have 6: "tostring E h ?s = (Inr (snapshot t), h)"
    using tostring_unpopulated [OF np] etree_tostring_found [OF assms(1)] by simp
  show ?thesis using 1 np e' 4 5 6 by blast
qed

theorem empty_cache_is_unpopulated_witness:
  "find_el plain_heap (svg_root (SVG 0)) = Some (El 0 ''svg'' [] [El 1 ''g'' [] [El 2 ''title'' [] []]])
   \<and> \<not> recognized example_env ''svg'' \<and> \<not> recognized example_env ''g''
   \<and> \<not> recognized example_env ''title''
   \<and> \<not> populated (SVG 0)
   \<and> shapes_to_paths example_env plain_heap (SVG 0) True
       = (Inr \<lparr>svg_root = 0, elements = Some []\<rparr>, \<lparr>svg_root = 0, elements = Some []\<rparr>, plain_heap)
   \<and> tostring example_env plain_heap \<lparr>svg_root = 0, elements = Some []\<rparr>
       = (Inr (Xml ''svg'' [] [Xml ''g'' [] [Xml ''title'' [] []]]), plain_heap)"
proof -
  let ?t = "El 0 ''svg'' [] [El 1 ''g'' [] [El 2 ''title'' [] []]]"
  have 1: "find_el plain_heap (svg_root (SVG 0)) = Some ?t" using plain_find by (simp add: SVG_def)
  have 2: "\<forall>e \<in> set (nodes ?t). \<not> recognized example_env (el_tag e)"
    using plain_unrecognized by simp
  from empty_cache_is_unpopulated [OF 1 2 not_populated_SVG]
  show ?thesis using 1 plain_unrecognized by (simp add: SVG_def populated_def)
qed

text \<open>
  C1. \<^verbatim>\<open>apply_clip_paths\<close> is documented to apply clipping to the shapes and to remove
  the clip paths, but its body holds only comments: with \<^verbatim>\<open>inplace=True\<close> it returns
  the object and leaves cache and tree as they were, for every document. In the example
  document the path that refers to \<^verbatim>\<open>url(#c)\<close>, the clip container and its wrapper
  are all still there afterwards.
\<close>

theorem apply_clip_paths_changes_nothing:
  "apply_clip_paths E h self True = (Inr self, self, h)
   \<and> apply_clip_paths example_env example_heap (SVG 0) True = (Inr (SVG 0), SVG 0, example_heap)
   \<and> tostring example_env example_heap (SVG 0) = (Inr (snapshot example_tree), example_heap)"
proof -
  have "find_el example_heap 0 = Some example_tree"
    by (simp add: find_el_def example_heap_def example_tree_def)
  then have "tostring example_env example_heap (SVG 0) = (Inr (snapshot example_tree), example_heap)"
    using tostring_unpopulated [OF not_populated_SVG, of example_env example_heap 0]
    by (simp add: etree_tostring_def SVG_def)
  then show ?thesis by (simp add: apply_clip_paths_def)
qed

text \<open>
  C3. With \<^verbatim>\<open>as_path\<close> as the specification describes it, conversion is idempotent:
  a Path converts to itself, every shape converts to a Path, and converting that Path
  again gives it back; on a document, a second \<^verbatim>\<open>shapes_to_paths(inplace=True)\<close>
  after one that returned leaves the object as the first one left it.
\<close>

theorem shape_to_path_idempotent:
  assumes "as_path E = spec_as_path pd"
  shows "(cls s = SVGPath \<longrightarrow> as_path E s = Inr s)
       \<and> (\<exists>p. as_path E s = Inr p \<and> cls p = SVGPath \<and> as_path E p = Inr p)
       \<and> (\<forall>s1 self' h'. shapes_to_paths E h self True = (Inr s1, self', h')
             \<longrightarrow> shapes_to_paths E h' s1 True = (Inr s1, s1, h'))"
proof (intro conjI allI impI)
  assume "cls s = SVGPath"
  then show "as_path E s = Inr s" using assms by (simp add: spec_as_path_def)
next
  show "\<exists>p. as_path E s = Inr p \<and> cls p = SVGPath \<and> as_path E p = Inr p"
    using spec_as_path_total [of pd s] assms by simp
next
  fix s1 self' h' assume "shapes_to_paths E h self True = (Inr s1, self', h')"
  then have "shapes_to_paths_inplace E h self = (Inr s1, self')" "h' = h"
    by (auto simp: shapes_to_paths_def split: prod.splits)
  then show "shapes_to_paths E h' s1 True = (Inr s1, s1, h')"
    using shapes_to_paths_inplace_twice [OF assms] by (simp add: shapes_to_paths_def)
qed

theorem shape_to_path_idempotent_witness:
  "as_path example_env = spec_as_path (\<lambda>s. ''M0,0'')
   \<and> as_path example_env \<lparr>cls = SVGPath, vals = [(''d'', PyStr ''M1,1'')]\<rparr>
       = Inr \<lparr>cls = SVGPath, vals = [(''d'', PyStr ''M1,1'')]\<rparr>
   \<and> (\<exists>p. as_path example_env \<lparr>cls = SVGRect, vals = [(''fill'', PyStr ''red''), (''x'', PyFloat 1)]\<rparr>
             = Inr p \<and> cls p = SVGPath \<and> as_path example_env p = Inr p)"
proof -
  have a: "as_path example_env = spec_as_path (\<lambda>s. ''M0,0'')" by (simp add: example_env_def)
  show ?thesis
    using shape_to_path_idempotent [OF a, of "\<lparr>cls = SVGPath, vals = [(''d'', PyStr ''M1,1'')]\<rparr>"]
      shape_to_path_idempotent [OF a, of "\<lparr>cls = SVGRect, vals = [(''fill'', PyStr ''red''), (''x'', PyFloat 1)]\<rparr>"]
      a
    by simp
qed

text \<open>
  C9. On a well-formed document with at least one recognized shape element, once
  \<^verbatim>\<open>_elements\<close> has filled the cache the object is populated, and of two calls of
  \<^verbatim>\<open>tostring()\<close> the second raises. If the first call returned, it has replaced the
  cached nodes, the cache is the same as before, every node it names is parentless
  after the first call, and the second call raises the AttributeError of
  \<^verbatim>\<open>None.replace\<close>; if the first call raised, encoding a shape, the second raises too.
\<close>

theorem second_tostring_fails:
  assumes "wf_heap h" and "find_el h (svg_root self) = Some t"
    and "e \<in> set (nodes t)" and "recognized E (el_tag e)"
    and "\<not> populated self" and "SVG_elements E h self = Inr (c, self1)"
  shows "populated self1 \<and> elements self1 = Some c
       \<and> (\<exists>err. fst (tostring E (snd (tostring E h self1)) self1) = Inl err
              \<and> ((\<exists>x. fst (tostring E h self1) = Inr x)
                   \<longrightarrow> err = AttributeError
                       \<and> (\<forall>old \<in> set (map fst c). getparent (snd (tostring E h self1)) old = None)))"
proof -
  have w: "walk E h self = Inr (c, self1)"
    using assms(5,6) by (simp add: SVG_elements_unpopulated)
  then have col: "collect E (nodes t) = Inr c" and s1: "self1 = self\<lparr>elements := Some c\<rparr>"
    using assms(2) by (auto simp: walk_def split: sum.splits)
  have ne: "c \<noteq> []" using collect_nonempty [OF col assms(3,4)] .
  have pop: "populated self1" using s1 ne by (simp add: populated_def)
  have cache: "elements self1 = Some c" using s1 by simp
  from tostring_twice_fails [OF assms(1) pop, of E]
  obtain err where err: "fst (tostring E (snd (tostring E h self1)) self1) = Inl err"
    "(\<exists>x. fst (tostring E h self1) = Inr x) \<longrightarrow> err = AttributeError"
    by blast
  have "getparent (snd (tostring E h self1)) old = None"
    if ok: "fst (tostring E h self1) = Inr x" and mem: "old \<in> set (map fst c)" for x old
  proof -
    obtain s where "(old, s) \<in> set c" using mem by auto
    moreover have "tostring E h self1 = (Inr x, snd (tostring E h self1))"
      using ok by (cases "tostring E h self1") simp
    ultimately show ?thesis using tostring_detaches [OF assms(1) pop cache] by blast
  qed
  then show ?thesis using pop cache err by blast
qed

theorem second_tostring_fails_witness:
  "wf_heap small_heap \<and> find_el small_heap (svg_root (SVG 0)) = Some small_tree
   \<and> El 1 ''path'' [(''d'', ''M0,0''), (''fill'', ''red'')] [] \<in> set (nodes small_tree)
   \<and> recognized example_env (el_tag (El 1 ''path'' [(''d'', ''M0,0''), (''fill'', ''red'')] []))
   \<and> \<not> populated (SVG 0)
   \<and> SVG_elements example_env small_heap (SVG 0) = Inr ([(1, small_shape)], small_cached)
   \<and> populated small_cached
   \<and> (\<exists>err. fst (tostring example_env (snd (tostring example_env small_heap small_cached)) small_cached)
             = Inl err)"
proof -
  let ?e = "El 1 ''path'' [(''d'', ''M0,0''), (''fill'', ''red'')] []"
  have 2: "find_el small_heap (svg_root (SVG 0)) = Some small_tree"
    using small_find by (simp add: SVG_def)
  have 3: "?e \<in> set (nodes small_tree)" by (simp add: small_tree_def)
  have 4: "recognized example_env (el_tag ?e)" using example_recognized by simp
  from second_tostring_fails [OF wf_small 2 3 4 not_populated_SVG small_elements]
  have "populated small_cached"
    and "\<exists>err. fst (tostring example_env (snd (tostring example_env small_heap small_cached)) small_cached)
             = Inl err"
    by blast+
  then show ?thesis using wf_small 2 3 4 small_elements not_populated_SVG by simp
qed

text \<open>
  C4. \<^verbatim>\<open>tostring()\<close> calls \<^verbatim>\<open>old_el.getparent().replace\<close> with no test of what
  \<^verbatim>\<open>getparent()\<close> returned. In the document \<open>path_heap\<close>, whose root element is a
  path, \<^verbatim>\<open>_elements\<close> caches the root; \<^verbatim>\<open>tostring()\<close> then calls \<^verbatim>\<open>replace\<close>
  on \<open>None\<close> and raises AttributeError: no node is replaced and no bytes are emitted.
\<close>

theorem tostring_raises_on_cached_root:
  "SVG_elements example_env path_heap (SVG 0) = Inr ([(0, path_shape)], path_cached)
   \<and> fst (tostring example_env path_heap path_cached) = Inl AttributeError"
proof -
  have "getparent (path_heap\<lparr>next_id := 2\<rparr>) 0 = None"
    by (simp add: getparent_def path_heap_def all_nodes_def)
  then have "fst (tostring example_env path_heap path_cached) = Inl AttributeError"
    using path_make_swaps by (simp add: tostring_def populated_def path_cached_def)
  then show ?thesis using path_elements by simp
qed


text \<open>
  C2. For a well-formed heap, a document that is one of its trees and an object whose
  cached handles name nodes of the heap, \<^verbatim>\<open>shapes_to_paths(inplace=False)\<close> leaves
  the source as it was: the object (root and cache) is unchanged, every tree of the heap
  is unchanged and the only new tree is the copy, and the source serializes to the same
  result after the call as before it, by \<^verbatim>\<open>etree.tostring\<close> and by \<^verbatim>\<open>tostring()\<close>.
  The call returns exactly when every recognized element decodes and its shape converts.
  The object it returns is over a new root whose tree serializes as the source document
  did; its cache pairs the copy of each recognized element, in document order, with the
  path converted from that element's shape; and the copy is independent: serializing
  the returned object, which rewrites its tree, leaves every tree of the source as it was.
\<close>

theorem copy_leaves_source:
  assumes wf: "wf_heap h" and k: "k < length (forest h)"
    and root: "el_id (forest h ! k) = svg_root self"
    and handles: "\<forall>c. elements self = Some c \<longrightarrow> set (map fst c) \<subseteq> set (ids (forest h))"
    and run: "shapes_to_paths E h self False = (res, self', h')"
  shows "self' = self
       \<and> forest h' = forest h @ [map_ids (\<lambda>i. i + next_id h) (forest h ! k)]
       \<and> wf_heap h'
       \<and> etree_tostring h' (svg_root self) = etree_tostring h (svg_root self)
       \<and> fst (tostring E h' self) = fst (tostring E h self)
       \<and> ((\<exists>svg. res = Inr svg)
            \<longleftrightarrow> (\<forall>e \<in> set (nodes (forest h ! k)). recognized E (el_tag e)
                  \<longrightarrow> (\<exists>d p. el_to_data E e = Inr d \<and> as_path E d = Inr p)))
       \<and> (\<forall>svg. res = Inr svg \<longrightarrow>
             svg_root svg = svg_root self + next_id h
           \<and> find_el h (svg_root svg) = None
           \<and> etree_tostring h' (svg_root svg) = Inr (snapshot (forest h ! k))
           \<and> (\<exists>c. elements svg = Some c
                \<and> list_all2 (\<lambda>e (j, p). j = el_id e + next_id h
                                \<and> (\<exists>d. el_to_data E e = Inr d \<and> as_path E d = Inr p))
                     (filter (\<lambda>e. recognized E (el_tag e)) (nodes (forest h ! k))) c)
           \<and> (\<exists>G. forest (snd (tostring E h' svg)) = forest h @ G))"
proof -
  let ?t = "forest h ! k"
  let ?N = "next_id h"
  let ?f = "\<lambda>i. i + next_id h"
  let ?cp = "map_ids ?f ?t"
  let ?h1 = "\<lparr>forest = forest h @ [?cp], next_id = ?N + ?N\<rparr>"
  let ?r = "svg_root self + ?N"
  have dist: "distinct (ids (forest h))" and lt: "\<forall>i \<in> set (ids (forest h)). i < ?N"
    using wf by (simp_all add: wf_heap_def list_all_iff)
  have f: "find_el h (svg_root self) = Some ?t" using find_el_root [OF dist k] root by simp
  have dc: "deepcopy h (svg_root self) = Some (?r, ?h1)" using deepcopy_found [OF f] .
  obtain r2 svg2 where ip: "shapes_to_paths_inplace E ?h1 (SVG ?r) = (r2, svg2)"
    by (cases "shapes_to_paths_inplace E ?h1 (SVG ?r)")
  have res: "res = (case r2 of Inl e \<Rightarrow> Inl e | Inr x \<Rightarrow> Inr svg2)"
    and 1: "self' = self" and h': "h' = ?h1"
    using run dc ip by (auto simp: shapes_to_paths_def split: sum.splits)
  have 2: "forest h' = forest h @ [?cp]" using h' by simp
  have 3: "wf_heap h'" using wf_deepcopy [OF wf f] h' by simp
  have 4: "etree_tostring h' (svg_root self) = etree_tostring h (svg_root self)"
    using find_el_append [OF f 2] f by (simp add: etree_tostring_def)
  have fresh: "j \<notin> set (ids (forest h))" if "?N \<le> j" for j using lt that by auto
  have big: "?N \<le> j" if "j \<in> set (ids [?cp])" for j
    using that by (auto simp: ids_map_ids)
  have 5: "fst (tostring E h' self) = fst (tostring E h self)"
  proof -
    have k': "k < length (forest h')" and nth: "forest h' ! k = ?t"
      using k 2 by (simp_all add: nth_append)
    have root': "el_id (forest h' ! k) = svg_root self" using nth root by simp
    have hs: "set (map fst c) \<subseteq> set (ids (forest h))" if "elements self = Some c" for c
      using handles that by blast
    have hs': "set (map fst c) \<subseteq> set (ids (forest h'))" if "elements self = Some c" for c
      using hs [OF that] 2 by auto
    have "(set (map fst c) \<subseteq> set (kid_ids (forest h')))
          = (set (map fst c) \<subseteq> set (kid_ids (forest h)))" if c: "elements self = Some c" for c
    proof -
      have "j \<notin> set (kid_ids [?cp])" if "j \<in> set (map fst c)" for j
        using hs [OF c] that big [of j] fresh [of j] kid_ids_subset_ids [of "[?cp]"] by auto
      then show ?thesis using 2 by auto
    qed
    then have "tostring_out E ?t (set (kid_ids (forest h'))) (elements self)
               = tostring_out E ?t (set (kid_ids (forest h))) (elements self)"
      by (intro tostring_out_cong) blast
    then show ?thesis
      using tostring_output [OF 3 k' root', of E] tostring_output [OF wf k root, of E] hs hs' nth
      by simp
  qed
  have idt: "el_id ?cp = ?r" using root by simp
  have rfresh: "?r \<notin> set (ids (forest h))" using fresh [of ?r] by simp
  have fcp: "find_el ?h1 ?r = Some ?cp"
    using find_el_fresh [OF rfresh, of ?h1 "[?cp]"] find_tree_root [of ?cp] idt by simp
  have 6: "(\<exists>svg. res = Inr svg)
            \<longleftrightarrow> (\<forall>e \<in> set (nodes ?t). recognized E (el_tag e)
                  \<longrightarrow> (\<exists>d p. el_to_data E e = Inr d \<and> as_path E d = Inr p))"
    using inplace_returns_iff [OF fcp, of E] ip res by (cases r2) auto
  have 7: "svg_root svg = ?r \<and> find_el h (svg_root svg) = None
           \<and> etree_tostring h' (svg_root svg) = Inr (snapshot ?t)
           \<and> (\<exists>c. elements svg = Some c
                \<and> list_all2 (\<lambda>e (j, p). j = el_id e + next_id h
                                \<and> (\<exists>d. el_to_data E e = Inr d \<and> as_path E d = Inr p))
                     (filter (\<lambda>e. recognized E (el_tag e)) (nodes ?t)) c)
           \<and> (\<exists>G. forest (snd (tostring E h' svg)) = forest h @ G)"
    if r: "res = Inr svg" for svg
  proof -
    obtain x where r2: "r2 = Inr x" and svg: "svg2 = svg" using r res by (cases r2) auto
    from inplace_on_copy [OF fcp ip [unfolded r2 svg]]
    obtain c c' where c: "collect E (nodes ?t) = Inr c"
      and sv: "svg = \<lparr>svg_root = ?r, elements = Some c'\<rparr>"
      and conv: "convert_all (as_path E) (map (\<lambda>(i, d). (?f i, d)) c) = (None, c')"
      by blast
    have a: "svg_root svg = ?r" using sv by simp
    have b: "find_el h (svg_root svg) = None"
      using rfresh a by (force simp: find_el_def find_None_iff ids_def image_iff)
    have c3: "etree_tostring h' (svg_root svg) = Inr (snapshot ?t)"
      using fcp a h' by (simp add: etree_tostring_def)
    have d: "list_all2 (\<lambda>e (j, p). j = el_id e + next_id h
                                \<and> (\<exists>d. el_to_data E e = Inr d \<and> as_path E d = Inr p))
                     (filter (\<lambda>e. recognized E (el_tag e)) (nodes ?t)) c'"
      using converted_pairs [OF c conv] .
    have hd: "map fst c' = map (\<lambda>p. fst p + ?N) c"
      using convert_all_handles [of "as_path E" "map (\<lambda>(i, d). (?f i, d)) c"] conv
      by (simp add: comp_def case_prod_unfold)
    have "old \<notin> set (kid_ids (forest h))"
      if "elements svg = Some cc" "old \<in> set (map fst cc)" for cc old
    proof -
      have "old \<in> set (map fst c')" using that sv by simp
      then have "?N \<le> old" unfolding hd by auto
      then show ?thesis using fresh [of old] kid_ids_subset_ids [of "forest h"] by auto
    qed
    then have e: "\<exists>G. forest (snd (tostring E h' svg)) = forest h @ G"
      using tostring_frame [OF 2, of svg E] by blast
    show ?thesis using a b c3 d e sv by auto
  qed
  show ?thesis using 1 2 3 4 5 6 7 by blast
qed

theorem copy_leaves_source_witness:
  "wf_heap small_heap \<and> 0 < length (forest small_heap)
   \<and> el_id (forest small_heap ! 0) = svg_root (SVG 0) \<and> elements (SVG 0) = None
   \<and> shapes_to_paths example_env small_heap (SVG 0) False
       = (Inr \<lparr>svg_root = 3, elements = Some [(4, small_shape)]\<rparr>, SVG 0,
          \<lparr>forest = [small_tree, map_ids (\<lambda>i. i + 3) small_tree], next_id = 6\<rparr>)
   \<and> fst (tostring example_env \<lparr>forest = [small_tree, map_ids (\<lambda>i. i + 3) small_tree], next_id = 6\<rparr> (SVG 0))
       = fst (tostring example_env small_heap (SVG 0))
   \<and> etree_tostring \<lparr>forest = [small_tree, map_ids (\<lambda>i. i + 3) small_tree], next_id = 6\<rparr> 3
       = Inr (snapshot small_tree)
   \<and> find_el small_heap 3 = None"
proof -
  let ?h1 = "\<lparr>forest = [small_tree, map_ids (\<lambda>i. i + 3) small_tree], next_id = 6\<rparr>"
  let ?x = "\<lparr>svg_root = 3, elements = Some [(4, small_shape)]\<rparr>"
  have 2: "0 < length (forest small_heap)" by (simp add: small_heap_def)
  have 3: "el_id (forest small_heap ! 0) = svg_root (SVG 0)"
    by (simp add: small_heap_def small_tree_def SVG_def)
  have 4: "elements (SVG 0) = None" by (simp add: SVG_def)
  then have hs: "\<forall>c. elements (SVG 0) = Some c \<longrightarrow> set (map fst c) \<subseteq> set (ids (forest small_heap))"
    by simp
  note T = copy_leaves_source [OF wf_small 2 3 hs small_copy]
  have a: "fst (tostring example_env ?h1 (SVG 0)) = fst (tostring example_env small_heap (SVG 0))"
    using T by blast
  have b: "svg_root ?x = svg_root (SVG 0) + next_id small_heap
           \<and> find_el small_heap (svg_root ?x) = None
           \<and> etree_tostring ?h1 (svg_root ?x) = Inr (snapshot (forest small_heap ! 0))"
    using T by blast
  then have "etree_tostring ?h1 3 = Inr (snapshot small_tree)" "find_el small_heap 3 = None"
    by (simp_all add: small_heap_def)
  then show ?thesis using wf_small 2 3 4 small_copy a by simp
qed




end
